theory Spec2Isabelle
  imports Main
begin

section \<open>Values, arrays and Stack objects\<close>

text \<open>
  The engine is generic over its alphabets, and a TypeScript type parameter may itself
  contain \<^verbatim>\<open>undefined\<close> or \<^verbatim>\<open>null\<close>. A slot of an array of symbols
  therefore holds one of the two JavaScript sentinels or a proper symbol.
  \<^verbatim>\<open>Array.prototype.pop\<close> and an out-of-range read both answer \<^verbatim>\<open>undefined\<close>.
\<close>

datatype 'a js = Undefined | Null | Val 'a

text \<open>The operator \<^verbatim>\<open>v ?? d\<close>: the right operand replaces a nullish left operand.\<close>

definition nullish :: "'a js \<Rightarrow> 'a js \<Rightarrow> 'a js" where
  "nullish v d = (case v of Undefined \<Rightarrow> d | Null \<Rightarrow> d | Val x \<Rightarrow> Val x)"

text \<open>
  Arrays and \<^verbatim>\<open>Stack\<close> objects are mutable and shared by reference, so both live in a
  store. \<open>arr\<close> gives the contents of the array at an address (index 0 first, so that
  \<^verbatim>\<open>push\<close> and \<^verbatim>\<open>pop\<close> work at the end of the list), \<open>fld\<close> gives the private field
  \<^verbatim>\<open>#stack\<close> of the \<^verbatim>\<open>Stack\<close> object at an address, that is the address of its
  array. \<open>arr_next\<close> and \<open>obj_next\<close> are the next unused addresses.
\<close>

record 'a store =
  arr :: "nat \<Rightarrow> 'a js list"
  fld :: "nat \<Rightarrow> nat"
  arr_next :: nat
  obj_next :: nat

definition empty_store :: "'a store" where
  "empty_store = \<lparr>arr = (\<lambda>_. []), fld = (\<lambda>_. 0), arr_next = 0, obj_next = 0\<rparr>"

text \<open>An array literal \<^verbatim>\<open>[]\<close> or \<^verbatim>\<open>[...xs]\<close> allocates a new array.\<close>

definition array_new :: "'a store \<Rightarrow> 'a js list \<Rightarrow> nat \<times> 'a store" where
  "array_new st xs =
     (arr_next st, st\<lparr>arr := (arr st)(arr_next st := xs), arr_next := Suc (arr_next st)\<rparr>)"

text \<open>\<^verbatim>\<open>array.push(...items)\<close> appends in place.\<close>

definition array_push :: "'a store \<Rightarrow> nat \<Rightarrow> 'a js list \<Rightarrow> 'a store" where
  "array_push st r items = st\<lparr>arr := (arr st)(r := arr st r @ items)\<rparr>"

text \<open>\<^verbatim>\<open>array.pop()\<close> removes and returns the last element, \<^verbatim>\<open>undefined\<close> when empty.\<close>

definition array_pop :: "'a store \<Rightarrow> nat \<Rightarrow> 'a js \<times> 'a store" where
  "array_pop st r =
     (if arr st r = [] then (Undefined, st)
      else (last (arr st r), st\<lparr>arr := (arr st)(r := butlast (arr st r))\<rparr>))"

text \<open>\<^verbatim>\<open>array[array.length - 1]\<close>: index \<open>-1\<close> of an empty array reads \<^verbatim>\<open>undefined\<close>.\<close>

definition array_last :: "'a store \<Rightarrow> nat \<Rightarrow> 'a js" where
  "array_last st r = (if arr st r = [] then Undefined else last (arr st r))"

subsection \<open>The actions of a stack\<close>

datatype 'a stack_action = Delete | Push "'a js" | Pop "'a js" | Ignore | Clear

subsection \<open>Class Stack\<close>

text \<open>The constructor: \<^verbatim>\<open>this.#stack = []\<close> on a new object.\<close>

definition Stack_new :: "'a store \<Rightarrow> nat \<times> 'a store" where
  "Stack_new st =
     (let (r, st1) = array_new st []
      in (obj_next st1,
          st1\<lparr>fld := (fld st1)(obj_next st1 := r), obj_next := Suc (obj_next st1)\<rparr>))"

definition Stack_push :: "'a store \<Rightarrow> nat \<Rightarrow> 'a js \<Rightarrow> 'a store" where
  "Stack_push st this item = array_push st (fld st this) [item]"

definition Stack_pop :: "'a store \<Rightarrow> nat \<Rightarrow> 'a js \<times> 'a store" where
  "Stack_pop st this = array_pop st (fld st this)"

definition Stack_head :: "'a store \<Rightarrow> nat \<Rightarrow> 'a js" where
  "Stack_head st this = (let stack = fld st this in array_last st stack)"

definition Stack_delete :: "'a store \<Rightarrow> nat \<Rightarrow> 'a store" where
  "Stack_delete st this = snd (array_pop st (fld st this))"

text \<open>
  \<^verbatim>\<open>Stack.fromArray(array)\<close>: a new Stack (whose constructor allocates an empty array)
  gets the caller's array assigned to its field; the array is not copied.
\<close>

definition Stack_fromArray :: "'a store \<Rightarrow> nat \<Rightarrow> nat \<times> 'a store" where
  "Stack_fromArray st array =
     (let (stack, st1) = Stack_new st
      in (stack, st1\<lparr>fld := (fld st1)(stack := array)\<rparr>))"

text \<open>\<^verbatim>\<open>copy()\<close> is \<^verbatim>\<open>Stack.fromArray([...this.#stack])\<close>.\<close>

definition Stack_copy :: "'a store \<Rightarrow> nat \<Rightarrow> nat \<times> 'a store" where
  "Stack_copy st this =
     (let (r, st1) = array_new st (arr st (fld st this))
      in Stack_fromArray st1 r)"

text \<open>\<^verbatim>\<open>clear()\<close> assigns a new empty array to the field; the old array is left as it is.\<close>

definition Stack_clear :: "'a store \<Rightarrow> nat \<Rightarrow> 'a store" where
  "Stack_clear st this =
     (let (r, st1) = array_new st []
      in st1\<lparr>fld := (fld st1)(this := r)\<rparr>)"

definition Stack_appendArray :: "'a store \<Rightarrow> nat \<Rightarrow> nat \<Rightarrow> 'a store" where
  "Stack_appendArray st this array = array_push st (fld st this) (arr st array)"

text \<open>
  \<^verbatim>\<open>action(action)\<close> dispatches on the tag; only a pop returns a value, every other
  branch falls through to \<^verbatim>\<open>return undefined\<close>.
\<close>

definition Stack_action :: "'a store \<Rightarrow> nat \<Rightarrow> 'a stack_action \<Rightarrow> 'a js \<times> 'a store" where
  "Stack_action st this action =
     (case action of
        Delete \<Rightarrow> (Undefined, Stack_delete st this)
      | Push item \<Rightarrow> (Undefined, Stack_push st this item)
      | Pop dflt \<Rightarrow> (let (v, st1) = Stack_pop st this in (nullish v dflt, st1))
      | Clear \<Rightarrow> (Undefined, Stack_clear st this)
      | Ignore \<Rightarrow> (Undefined, st))"

text \<open>The symbols a Stack object holds, bottom first.\<close>

definition contents :: "'a store \<Rightarrow> nat \<Rightarrow> 'a js list" where
  "contents st s = arr st (fld st s)"

section \<open>The pushdown automaton\<close>

subsection \<open>What a transition function answers\<close>

datatype result = Accept | Reject

text \<open>
  The type of \<^verbatim>\<open>ContinueAction.stackAction\<close> lists delete, push and ignore, but
  \<^verbatim>\<open>advance\<close> hands the field to \<^verbatim>\<open>Stack.action\<close> unchecked, so the model keeps
  the full set of stack actions.

  Types are erased when the code runs, and when the stack alphabet and the input alphabet
  are the same type one Stack object, or one array, can stand behind both the control
  stack and the input queue (\<^verbatim>\<open>replaceInput(rawGetStack())\<close>). So all symbols have one
  type \<open>'a\<close> here (a sum type when the alphabets differ) and all arrays and Stack objects
  live in one store.
\<close>

datatype ('a, 'q) pda_action = Continue "'a stack_action" 'q | Resolve result

datatype ('a, 'q) input_action =
    PopInput "'a js \<Rightarrow> ('a, 'q) pda_action"
  | IgnoreInput "('a, 'q) pda_action"

subsection \<open>Class PushdownAutomaton\<close>

text \<open>
  The fields \<open>stack\<close> and \<open>input\<close> of an automaton are addresses of Stack objects in the
  store. Every method takes the store and returns the store it leaves.
\<close>

record ('a, 'q) initial =
  stackSymbol :: "'a js"
  initial_state :: 'q

record ('a, 'q) automaton =
  initialState :: "('a, 'q) initial"
  stack :: nat
  state :: 'q
  transition :: "'q \<Rightarrow> 'a js \<Rightarrow> ('a, 'q) input_action"
  result :: "result option"
  input :: nat

definition new_automaton ::
  "'a store \<Rightarrow> 'q \<Rightarrow> 'a js \<Rightarrow> ('q \<Rightarrow> 'a js \<Rightarrow> ('a, 'q) input_action)
   \<Rightarrow> 'a store \<times> ('a, 'q) automaton" where
  "new_automaton st s0 z0 t =
     (let (s, st1) = Stack_new st;
          st2 = Stack_push st1 s z0;
          (i, st3) = Stack_new st2
      in (st3,
          \<lparr>initialState = \<lparr>stackSymbol = z0, initial_state = s0\<rparr>,
           stack = s, state = s0, transition = t, result = None, input = i\<rparr>))"

text \<open>
  The method \<^verbatim>\<open>input(input)\<close>; its parameter is the address of the caller's array.
  (The method shares its name with the field, hence \<open>setInput\<close> here.)
\<close>

definition setInput ::
  "'a store \<Rightarrow> ('a, 'q) automaton \<Rightarrow> nat \<Rightarrow> 'a store \<times> ('a, 'q) automaton" where
  "setInput st a array =
     (let (s, st1) = Stack_fromArray st array
      in (st1, a\<lparr>input := s\<rparr>))"

definition advance ::
  "'a store \<Rightarrow> ('a, 'q) automaton \<Rightarrow> 'a store \<times> ('a, 'q) automaton" where
  "advance st a =
     (let stackSymbol = Stack_head st (stack a);
          action1 = transition a (state a) stackSymbol;
          (st1, action2) =
            (case action1 of
               PopInput continue \<Rightarrow>
                 (let (inputSymbol, st1) = Stack_pop st (input a)
                  in (st1, continue inputSymbol))
             | IgnoreInput continue \<Rightarrow> (st, continue))
      in case action2 of
           Resolve r \<Rightarrow> (st1, a\<lparr>result := Some r\<rparr>)
         | Continue stackAction q \<Rightarrow>
             (snd (Stack_action st1 (stack a) stackAction), a\<lparr>state := q\<rparr>))"

definition reset ::
  "'a store \<Rightarrow> ('a, 'q) automaton \<Rightarrow> 'a store \<times> ('a, 'q) automaton" where
  "reset st a =
     (let (s, st1) = Stack_new st;
          st2 = Stack_push st1 s (stackSymbol (initialState a));
          (i, st3) = Stack_new st2
      in (st3,
          a\<lparr>stack := s, state := initial_state (initialState a), result := None, input := i\<rparr>))"

definition getResult :: "('a, 'q) automaton \<Rightarrow> result option" where
  "getResult a = result a"

definition getState :: "('a, 'q) automaton \<Rightarrow> 'q" where
  "getState a = state a"

definition getTransitionFunction ::
  "('a, 'q) automaton \<Rightarrow> 'q \<Rightarrow> 'a js \<Rightarrow> ('a, 'q) input_action" where
  "getTransitionFunction a = transition a"

definition copyRemainingInput :: "'a store \<Rightarrow> ('a, 'q) automaton \<Rightarrow> nat \<times> 'a store" where
  "copyRemainingInput st a = Stack_copy st (input a)"

definition copyStack :: "'a store \<Rightarrow> ('a, 'q) automaton \<Rightarrow> nat \<times> 'a store" where
  "copyStack st a = Stack_copy st (stack a)"

definition getStackHead :: "'a store \<Rightarrow> ('a, 'q) automaton \<Rightarrow> 'a js" where
  "getStackHead st a = Stack_head st (stack a)"

definition getInputHead :: "'a store \<Rightarrow> ('a, 'q) automaton \<Rightarrow> 'a js" where
  "getInputHead st a = Stack_head st (input a)"

definition rawGetRemainingInput :: "('a, 'q) automaton \<Rightarrow> nat" where
  "rawGetRemainingInput a = input a"

definition rawGetStack :: "('a, 'q) automaton \<Rightarrow> nat" where
  "rawGetStack a = stack a"

definition overrideState :: "('a, 'q) automaton \<Rightarrow> 'q \<Rightarrow> ('a, 'q) automaton" where
  "overrideState a q = a\<lparr>state := q\<rparr>"

definition overrideTransitionFunction ::
  "('a, 'q) automaton \<Rightarrow> ('q \<Rightarrow> 'a js \<Rightarrow> ('a, 'q) input_action) \<Rightarrow> ('a, 'q) automaton" where
  "overrideTransitionFunction a t = a\<lparr>transition := t\<rparr>"

definition replaceStack :: "('a, 'q) automaton \<Rightarrow> nat \<Rightarrow> ('a, 'q) automaton" where
  "replaceStack a s = a\<lparr>stack := s\<rparr>"

definition replaceInput :: "('a, 'q) automaton \<Rightarrow> nat \<Rightarrow> ('a, 'q) automaton" where
  "replaceInput a s = a\<lparr>input := s\<rparr>"

definition runStackAction :: "'a store \<Rightarrow> ('a, 'q) automaton \<Rightarrow> 'a stack_action \<Rightarrow> 'a store" where
  "runStackAction st a action = snd (Stack_action st (stack a) action)"

definition runInputAction :: "'a store \<Rightarrow> ('a, 'q) automaton \<Rightarrow> 'a stack_action \<Rightarrow> 'a store" where
  "runInputAction st a action = snd (Stack_action st (input a) action)"

definition appendInputArray :: "'a store \<Rightarrow> ('a, 'q) automaton \<Rightarrow> nat \<Rightarrow> 'a store" where
  "appendInputArray st a array = Stack_appendArray st (input a) array"

subsection \<open>Observations\<close>

text \<open>The contents of the control stack and of the input queue, bottom first.\<close>

definition stack_contents :: "'a store \<Rightarrow> ('a, 'q) automaton \<Rightarrow> 'a js list" where
  "stack_contents st a = contents st (stack a)"

definition input_contents :: "'a store \<Rightarrow> ('a, 'q) automaton \<Rightarrow> 'a js list" where
  "input_contents st a = contents st (input a)"

text \<open>The control stack and the input queue do not share an array.\<close>

definition apart :: "'a store \<Rightarrow> ('a, 'q) automaton \<Rightarrow> bool" where
  "apart st a = (fld st (stack a) \<noteq> fld st (input a))"

text \<open>
  The two halves of \<^verbatim>\<open>advance\<close> read on their own: \<open>decision\<close> is \<^verbatim>\<open>action1\<close>,
  the answer of the transition function to the state and the head of the stack, and
  \<open>yielded\<close> is \<^verbatim>\<open>action2\<close>, the action the step then works with.
\<close>

definition decision :: "'a store \<Rightarrow> ('a, 'q) automaton \<Rightarrow> ('a, 'q) input_action" where
  "decision st a = transition a (state a) (Stack_head st (stack a))"

definition yielded :: "'a store \<Rightarrow> ('a, 'q) automaton \<Rightarrow> ('a, 'q) pda_action" where
  "yielded st a =
     (case decision st a of
        PopInput continue \<Rightarrow> continue (fst (Stack_pop st (input a)))
      | IgnoreInput continue \<Rightarrow> continue)"

text \<open>The store between the two halves: after the input has been popped, or left alone.\<close>

definition after_decision :: "'a store \<Rightarrow> ('a, 'q) automaton \<Rightarrow> 'a store" where
  "after_decision st a =
     (case decision st a of
        PopInput continue \<Rightarrow> snd (Stack_pop st (input a))
      | IgnoreInput continue \<Rightarrow> st)"

subsection \<open>Runs\<close>

text \<open>\<open>steps n\<close> calls \<^verbatim>\<open>advance\<close> \<open>n\<close> times.\<close>

fun steps :: "nat \<Rightarrow> 'a store \<times> ('a, 'q) automaton \<Rightarrow> 'a store \<times> ('a, 'q) automaton" where
  "steps 0 c = c"
| "steps (Suc n) c = steps n (advance (fst c) (snd c))"

text \<open>The first \<open>n\<close> steps all leave the input alone.\<close>

fun is_ignore_input :: "('a, 'q) input_action \<Rightarrow> bool" where
  "is_ignore_input (IgnoreInput _) = True"
| "is_ignore_input (PopInput _) = False"

fun ignoring :: "nat \<Rightarrow> 'a store \<times> ('a, 'q) automaton \<Rightarrow> bool" where
  "ignoring 0 c = True"
| "ignoring (Suc n) c =
     (is_ignore_input (decision (fst c) (snd c)) \<and> ignoring n (advance (fst c) (snd c)))"

text \<open>Counting the stack actions that the first \<open>n\<close> steps apply.\<close>

fun is_push :: "('a, 'q) pda_action \<Rightarrow> bool" where
  "is_push (Continue (Push _) _) = True"
| "is_push _ = False"

fun is_delete :: "('a, 'q) pda_action \<Rightarrow> bool" where
  "is_delete (Continue Delete _) = True"
| "is_delete _ = False"

fun pushes :: "nat \<Rightarrow> 'a store \<times> ('a, 'q) automaton \<Rightarrow> nat" where
  "pushes 0 c = 0"
| "pushes (Suc n) c =
     (if is_push (yielded (fst c) (snd c)) then 1 else 0) + pushes n (advance (fst c) (snd c))"

fun deletes :: "nat \<Rightarrow> 'a store \<times> ('a, 'q) automaton \<Rightarrow> nat" where
  "deletes 0 c = 0"
| "deletes (Suc n) c =
     (if is_delete (yielded (fst c) (snd c)) then 1 else 0) + deletes n (advance (fst c) (snd c))"

text \<open>The deletes that found an item to remove.\<close>

fun effective_deletes :: "nat \<Rightarrow> 'a store \<times> ('a, 'q) automaton \<Rightarrow> nat" where
  "effective_deletes 0 c = 0"
| "effective_deletes (Suc n) c =
     (if is_delete (yielded (fst c) (snd c)) \<and> stack_contents (fst c) (snd c) \<noteq> [] then 1 else 0)
     + effective_deletes n (advance (fst c) (snd c))"

text \<open>A transition function whose continue actions push, delete or ignore, and nothing else.\<close>

fun push_delete_ignore :: "('a, 'q) pda_action \<Rightarrow> bool" where
  "push_delete_ignore (Continue (Push _) _) = True"
| "push_delete_ignore (Continue Delete _) = True"
| "push_delete_ignore (Continue Ignore _) = True"
| "push_delete_ignore (Continue _ _) = False"
| "push_delete_ignore (Resolve _) = True"

definition restricted :: "('q \<Rightarrow> 'a js \<Rightarrow> ('a, 'q) input_action) \<Rightarrow> bool" where
  "restricted t =
     (\<forall>q g. case t q g of
               PopInput continue \<Rightarrow> (\<forall>x. push_delete_ignore (continue x))
             | IgnoreInput continue \<Rightarrow> push_delete_ignore continue)"

subsection \<open>Callers\<close>

text \<open>
  The holder of a Stack object (a copy, or a raw reference) can call its methods; the
  owner of an array can change it in place in any way (\<^verbatim>\<open>push\<close>, \<^verbatim>\<open>pop\<close>,
  \<^verbatim>\<open>shift\<close>, \<^verbatim>\<open>splice\<close>, an assignment to an index).
\<close>

datatype 'a stack_call =
    CallPush "'a js"
  | CallPop
  | CallDelete
  | CallClear
  | CallAppendArray nat
  | CallAction "'a stack_action"

fun call :: "'a store \<Rightarrow> nat \<times> 'a stack_call \<Rightarrow> 'a store" where
  "call st (s, CallPush item) = Stack_push st s item"
| "call st (s, CallPop) = snd (Stack_pop st s)"
| "call st (s, CallDelete) = Stack_delete st s"
| "call st (s, CallClear) = Stack_clear st s"
| "call st (s, CallAppendArray array) = Stack_appendArray st s array"
| "call st (s, CallAction action) = snd (Stack_action st s action)"

fun calls :: "'a store \<Rightarrow> (nat \<times> 'a stack_call) list \<Rightarrow> 'a store" where
  "calls st [] = st"
| "calls st (c # cs) = calls (call st c) cs"

definition array_mutate :: "'a store \<Rightarrow> nat \<Rightarrow> ('a js list \<Rightarrow> 'a js list) \<Rightarrow> 'a store" where
  "array_mutate st r f = st\<lparr>arr := (arr st)(r := f (arr st r))\<rparr>"

text \<open>
  What a caller can do between two steps: every method of the automaton that changes
  something; a new array, a change to an array, a method call on a Stack object; and
  \<open>Caller f\<close> for anything else that the caller's own code does to the store.
\<close>

datatype ('a, 'q) operation =
    Advance
  | Reset
  | Input nat
  | OverrideState 'q
  | OverrideTransitionFunction "'q \<Rightarrow> 'a js \<Rightarrow> ('a, 'q) input_action"
  | ReplaceStack nat
  | ReplaceInput nat
  | RunStackAction "'a stack_action"
  | RunInputAction "'a stack_action"
  | AppendInputArray nat
  | CopyStack
  | CopyRemainingInput
  | NewArray "'a js list"
  | MutateArray nat "'a js list \<Rightarrow> 'a js list"
  | Call nat "'a stack_call"
  | Caller "'a store \<Rightarrow> 'a store"

fun exec ::
  "('a, 'q) operation \<Rightarrow> 'a store \<times> ('a, 'q) automaton \<Rightarrow> 'a store \<times> ('a, 'q) automaton" where
  "exec Advance (st, a) = advance st a"
| "exec Reset (st, a) = reset st a"
| "exec (Input array) (st, a) = setInput st a array"
| "exec (OverrideState q) (st, a) = (st, overrideState a q)"
| "exec (OverrideTransitionFunction t) (st, a) = (st, overrideTransitionFunction a t)"
| "exec (ReplaceStack s) (st, a) = (st, replaceStack a s)"
| "exec (ReplaceInput s) (st, a) = (st, replaceInput a s)"
| "exec (RunStackAction action) (st, a) = (runStackAction st a action, a)"
| "exec (RunInputAction action) (st, a) = (runInputAction st a action, a)"
| "exec (AppendInputArray array) (st, a) = (appendInputArray st a array, a)"
| "exec CopyStack (st, a) = (snd (copyStack st a), a)"
| "exec CopyRemainingInput (st, a) = (snd (copyRemainingInput st a), a)"
| "exec (NewArray xs) (st, a) = (snd (array_new st xs), a)"
| "exec (MutateArray r f) (st, a) = (array_mutate st r f, a)"
| "exec (Call s m) (st, a) = (call st (s, m), a)"
| "exec (Caller f) (st, a) = (f st, a)"

fun run ::
  "('a, 'q) operation list \<Rightarrow> 'a store \<times> ('a, 'q) automaton
   \<Rightarrow> 'a store \<times> ('a, 'q) automaton" where
  "run [] c = c"
| "run (x # xs) c = run xs (exec x c)"

fun is_reset :: "('a, 'q) operation \<Rightarrow> bool" where
  "is_reset Reset = True"
| "is_reset _ = False"

text \<open>The transition function in place after a list of operations.\<close>

fun overridden ::
  "('q \<Rightarrow> 'a js \<Rightarrow> ('a, 'q) input_action) \<Rightarrow> ('a, 'q) operation list
   \<Rightarrow> 'q \<Rightarrow> 'a js \<Rightarrow> ('a, 'q) input_action" where
  "overridden t [] = t"
| "overridden t (OverrideTransitionFunction t' # xs) = overridden t' xs"
| "overridden t (_ # xs) = overridden t xs"

text \<open>A Stack object that has been constructed, with an array that has been allocated.\<close>

definition allocated :: "'a store \<Rightarrow> nat \<Rightarrow> bool" where
  "allocated st s = (s < obj_next st \<and> fld st s < arr_next st)"

text \<open>Stack objects that all exist and have an array each of their own.\<close>

definition separate :: "'a store \<Rightarrow> nat list \<Rightarrow> bool" where
  "separate st ss = (list_all (allocated st) ss \<and> distinct (map (fld st) ss))"

subsection \<open>What the caller holds\<close>

text \<open>
  The references a caller has in hand: the arrays it made, and the Stack objects the
  automaton gave it as copies. A caller who stays away from the raw accessors and from
  \<^verbatim>\<open>replaceStack\<close> and \<^verbatim>\<open>replaceInput\<close> can pass to the automaton, change and call
  only what it holds. \<open>lent\<close> is the array that the caller passed to the latest
  \<^verbatim>\<open>input\<close> call, as long as no \<^verbatim>\<open>reset\<close>, no further \<^verbatim>\<open>input\<close> and no clear
  action on the input has come after that call.
\<close>

record held =
  held_arrays :: "nat set"
  held_stacks :: "nat set"
  lent :: "nat option"

text \<open>
  What the caller holds after an operation: a new array, the copy that the automaton
  returned, or what it held before.
\<close>

fun gains :: "'a store \<times> ('a, 'q) automaton \<Rightarrow> ('a, 'q) operation \<Rightarrow> held \<Rightarrow> held" where
  "gains (st, a) (NewArray xs) h =
     h\<lparr>held_arrays := insert (fst (array_new st xs)) (held_arrays h)\<rparr>"
| "gains (st, a) CopyStack h =
     h\<lparr>held_stacks := insert (fst (copyStack st a)) (held_stacks h)\<rparr>"
| "gains (st, a) CopyRemainingInput h =
     h\<lparr>held_stacks := insert (fst (copyRemainingInput st a)) (held_stacks h)\<rparr>"
| "gains (st, a) (Input r) h = h\<lparr>lent := Some r\<rparr>"
| "gains (st, a) Reset h = h\<lparr>lent := None\<rparr>"
| "gains (st, a) (RunInputAction Clear) h = h\<lparr>lent := None\<rparr>"
| "gains (st, a) _ h = h"

fun permitted_call :: "held \<Rightarrow> 'a stack_call \<Rightarrow> bool" where
  "permitted_call h (CallAppendArray r) = (r \<in> held_arrays h)"
| "permitted_call h _ = True"

text \<open>
  The operations of a caller who uses only what it holds. The module exports the class
  \<^verbatim>\<open>PushdownAutomaton\<close> alone, so the Stack objects in a caller's hands are those that
  the automaton returned.
\<close>

fun permitted :: "held \<Rightarrow> ('a, 'q) operation \<Rightarrow> bool" where
  "permitted h (Input r) = (r \<in> held_arrays h)"
| "permitted h (AppendInputArray r) = (r \<in> held_arrays h)"
| "permitted h (MutateArray r f) = (r \<in> held_arrays h)"
| "permitted h (Call s m) = (s \<in> held_stacks h \<and> permitted_call h m)"
| "permitted h (ReplaceStack s) = False"
| "permitted h (ReplaceInput s) = False"
| "permitted h (Caller f) = False"
| "permitted h _ = True"

text \<open>The caller acting on what it holds, not the automaton acting.\<close>

fun caller_op :: "('a, 'q) operation \<Rightarrow> bool" where
  "caller_op (NewArray xs) = True"
| "caller_op (MutateArray r f) = True"
| "caller_op (Call s m) = True"
| "caller_op _ = False"

text \<open>
  A list of operations each of which is permitted when its turn comes, and what the
  caller holds at the end of the list.
\<close>

fun allowed ::
  "('a, 'q) operation list \<Rightarrow> held \<Rightarrow> 'a store \<times> ('a, 'q) automaton \<Rightarrow> bool" where
  "allowed [] h c = True"
| "allowed (x # xs) h c = (permitted h x \<and> allowed xs (gains c x h) (exec x c))"

fun holding ::
  "('a, 'q) operation list \<Rightarrow> held \<Rightarrow> 'a store \<times> ('a, 'q) automaton \<Rightarrow> held" where
  "holding [] h c = h"
| "holding (x # xs) h c = holding xs (gains c x h) (exec x c)"

text \<open>
  The automaton's two stacks are its own: existing objects with existing arrays that are
  different from each other, neither object held by the caller, the array of the control
  stack not held either, and no Stack object of the caller's built on one of the two
  arrays. The array of the input queue is one the caller holds exactly when it is lent.
\<close>

definition owned :: "'a store \<Rightarrow> ('a, 'q) automaton \<Rightarrow> held \<Rightarrow> bool" where
  "owned st a h =
     ((\<forall>r \<in> held_arrays h. r < arr_next st)
      \<and> (\<forall>s \<in> held_stacks h.
            s < obj_next st \<and> fld st s < arr_next st \<and> fld st s \<notin> held_arrays h
            \<and> fld st s \<noteq> fld st (stack a) \<and> fld st s \<noteq> fld st (input a))
      \<and> stack a < obj_next st \<and> input a < obj_next st
      \<and> fld st (stack a) < arr_next st \<and> fld st (input a) < arr_next st
      \<and> stack a \<notin> held_stacks h \<and> input a \<notin> held_stacks h
      \<and> fld st (stack a) \<notin> held_arrays h
      \<and> fld st (stack a) \<noteq> fld st (input a)
      \<and> (case lent h of
           Some r \<Rightarrow> r \<in> held_arrays h \<and> fld st (input a) = r
         | None \<Rightarrow> fld st (input a) \<notin> held_arrays h))"

text \<open>What a permitted operation of the caller's does to the input queue \<open>xs\<close>.\<close>

fun follows :: "held \<Rightarrow> ('a, 'q) operation \<Rightarrow> 'a js list \<Rightarrow> 'a js list" where
  "follows h (MutateArray r f) xs = (if lent h = Some r then f xs else xs)"
| "follows h _ xs = xs"

subsection \<open>Small automata used as examples\<close>

text \<open>An automaton over the bottom symbol 0, fed from an array the caller made before.\<close>

definition fed ::
  "'q \<Rightarrow> ('q \<Rightarrow> nat js \<Rightarrow> (nat, 'q) input_action) \<Rightarrow> nat js list
   \<Rightarrow> nat store \<times> (nat, 'q) automaton" where
  "fed s0 t xs =
     (let (r, st1) = array_new empty_store xs;
          (st2, a) = new_automaton st1 s0 (Val 0) t
      in setInput st2 a r)"

text \<open>
  An automaton over the bottom symbol \<open>z0\<close> whose input queue is its own control stack:
  \<^verbatim>\<open>a.replaceInput(a.rawGetStack())\<close>.
\<close>

definition self_fed ::
  "'q \<Rightarrow> nat js \<Rightarrow> ('q \<Rightarrow> nat js \<Rightarrow> (nat, 'q) input_action)
   \<Rightarrow> nat store \<times> (nat, 'q) automaton" where
  "self_fed s0 z0 t =
     (let (st, a) = new_automaton empty_store s0 z0 t
      in (st, replaceInput a (rawGetStack a)))"

text \<open>It idles for one step; from then on its state is the input symbol it consumed last.\<close>

definition echo :: "nat js \<Rightarrow> nat js \<Rightarrow> (nat, nat js) input_action" where
  "echo q g =
     (if q = Undefined then IgnoreInput (Continue Ignore Null)
      else PopInput (\<lambda>x. Continue Ignore x))"

text \<open>It accepts the input symbol 1 and rejects everything else.\<close>

definition picky :: "nat \<Rightarrow> nat js \<Rightarrow> (nat, nat) input_action" where
  "picky q g = PopInput (\<lambda>x. if x = Val 1 then Resolve Accept else Resolve Reject)"

text \<open>It deletes twice, pushes once and then idles; the state counts the steps.\<close>

definition delete_delete_push :: "nat \<Rightarrow> nat js \<Rightarrow> (nat, nat) input_action" where
  "delete_delete_push q g =
     IgnoreInput (Continue (if q < 2 then Delete else if q = 2 then Push (Val 9) else Ignore)
                           (Suc q))"

text \<open>It accepts as soon as its stack is empty and deletes otherwise.\<close>

definition drain :: "nat \<Rightarrow> nat js \<Rightarrow> (nat, nat) input_action" where
  "drain q g = IgnoreInput (if g = Undefined then Resolve Accept else Continue Delete q)"

text \<open>
  A caller who tinkers with an automaton: new input, a step, a copy of the stack put in
  place of the stack and cleared, another transition function, another state, a step.
\<close>

definition tinkering :: "(nat, nat) operation list" where
  "tinkering =
     [Input 0, Advance, CopyStack, OverrideTransitionFunction drain, OverrideState 5,
      ReplaceStack 3, RunStackAction Clear, Advance]"

definition tinkered :: "nat store \<times> (nat, nat) automaton" where
  "tinkered =
     run tinkering (new_automaton (snd (array_new empty_store [Val 1, Val 2])) 0 (Val 0) picky)"

text \<open>
  A caller who lends an array to an automaton as its input, takes a copy of the control
  stack, lets the automaton step once and pushes onto the copy.
\<close>

definition lending :: "(nat, nat) operation list" where
  "lending = [Input 0, CopyStack, Advance, Call 3 (CallPush (Val 5))]"

section \<open>Equations for evaluation\<close>

text \<open>
  The definitions above bind intermediate results as the code does. For evaluating a
  concrete run the same functions are given by projections, which the simplifier unfolds
  without working under the binders.
\<close>

lemma Stack_new_code [code]:
  "Stack_new st =
     (obj_next st,
      st\<lparr>arr := (arr st)(arr_next st := []), arr_next := Suc (arr_next st),
         fld := (fld st)(obj_next st := arr_next st), obj_next := Suc (obj_next st)\<rparr>)"
  by (simp add: Stack_new_def array_new_def)

lemma Stack_fromArray_code [code]:
  "Stack_fromArray st array =
     (fst (Stack_new st),
      (snd (Stack_new st))\<lparr>fld := (fld (snd (Stack_new st)))(fst (Stack_new st) := array)\<rparr>)"
  by (simp add: Stack_fromArray_def split_def Let_def)

lemma Stack_copy_code [code]:
  "Stack_copy st this =
     Stack_fromArray (snd (array_new st (arr st (fld st this))))
                     (fst (array_new st (arr st (fld st this))))"
  by (simp add: Stack_copy_def split_def Let_def)

lemma Stack_clear_code [code]:
  "Stack_clear st this =
     (snd (array_new st []))\<lparr>fld := (fld (snd (array_new st [])))(this := fst (array_new st []))\<rparr>"
  by (simp add: Stack_clear_def split_def Let_def)

lemma Stack_action_code [code]:
  "Stack_action st this action =
     (case action of
        Delete \<Rightarrow> (Undefined, Stack_delete st this)
      | Push item \<Rightarrow> (Undefined, Stack_push st this item)
      | Pop dflt \<Rightarrow> (nullish (fst (Stack_pop st this)) dflt, snd (Stack_pop st this))
      | Clear \<Rightarrow> (Undefined, Stack_clear st this)
      | Ignore \<Rightarrow> (Undefined, st))"
  by (simp add: Stack_action_def split_def Let_def split: stack_action.splits)

lemma new_automaton_code [code]:
  "new_automaton st s0 z0 t =
     (snd (Stack_new (Stack_push (snd (Stack_new st)) (fst (Stack_new st)) z0)),
      \<lparr>initialState = \<lparr>stackSymbol = z0, initial_state = s0\<rparr>,
       stack = fst (Stack_new st), state = s0, transition = t, result = None,
       input = fst (Stack_new (Stack_push (snd (Stack_new st)) (fst (Stack_new st)) z0))\<rparr>)"
  by (simp add: new_automaton_def split_def Let_def)

lemma reset_code [code]:
  "reset st a =
     (snd (Stack_new (Stack_push (snd (Stack_new st)) (fst (Stack_new st))
             (stackSymbol (initialState a)))),
      a\<lparr>stack := fst (Stack_new st), state := initial_state (initialState a), result := None,
        input := fst (Stack_new (Stack_push (snd (Stack_new st)) (fst (Stack_new st))
                   (stackSymbol (initialState a))))\<rparr>)"
  by (simp add: reset_def split_def Let_def)

lemma setInput_code [code]:
  "setInput st a array =
     (snd (Stack_fromArray st array), a\<lparr>input := fst (Stack_fromArray st array)\<rparr>)"
  by (simp add: setInput_def split_def Let_def)

lemma advance_code [code]:
  "advance st a =
     (case yielded st a of
        Resolve r \<Rightarrow> (after_decision st a, a\<lparr>result := Some r\<rparr>)
      | Continue sa q \<Rightarrow>
          (snd (Stack_action (after_decision st a) (stack a) sa), a\<lparr>state := q\<rparr>))"
  by (simp add: advance_def yielded_def decision_def after_decision_def Let_def split_def
      split: input_action.splits pda_action.splits)

lemma fed_code [code]:
  "fed s0 t xs =
     setInput (fst (new_automaton (snd (array_new empty_store xs)) s0 (Val 0) t))
              (snd (new_automaton (snd (array_new empty_store xs)) s0 (Val 0) t))
              (fst (array_new empty_store xs))"
  by (simp add: fed_def split_def Let_def)

lemma self_fed_code [code]:
  "self_fed s0 z0 t =
     (fst (new_automaton empty_store s0 z0 t),
      replaceInput (snd (new_automaton empty_store s0 z0 t))
        (rawGetStack (snd (new_automaton empty_store s0 z0 t))))"
  by (simp add: self_fed_def split_def Let_def)

section \<open>Stack: what the methods do to the contents\<close>

lemma Stack_pop_contents:
  "contents (snd (Stack_pop st s)) s = butlast (contents st s)"
  "fst (Stack_pop st s) = (if contents st s = [] then Undefined else last (contents st s))"
  by (simp_all add: Stack_pop_def array_pop_def contents_def)

lemma Stack_pop_frame:
  "fld (snd (Stack_pop st s)) = fld st"
  "arr_next (snd (Stack_pop st s)) = arr_next st"
  "obj_next (snd (Stack_pop st s)) = obj_next st"
  "fld st x \<noteq> fld st s \<Longrightarrow> contents (snd (Stack_pop st s)) x = contents st x"
  "fld st x = fld st s \<Longrightarrow> contents (snd (Stack_pop st s)) x = butlast (contents st x)"
  by (simp_all add: Stack_pop_def array_pop_def contents_def)

lemma Stack_fromArray_contents:
  "r < arr_next st \<Longrightarrow>
   contents (snd (Stack_fromArray st r)) (fst (Stack_fromArray st r)) = arr st r"
  "fld (snd (Stack_fromArray st r)) (fst (Stack_fromArray st r)) = r"
  by (simp_all add: Stack_fromArray_def Stack_new_def array_new_def contents_def Let_def split_def)

lemma Stack_action_Pop_empty:
  "contents st s = [] \<Longrightarrow>
   fst (Stack_action st s (Pop d)) = d \<and> contents (snd (Stack_action st s (Pop d))) s = []"
  by (simp add: Stack_action_def Stack_pop_def array_pop_def contents_def nullish_def)

lemma Stack_action_Pop_proper:
  "contents st s = xs @ [Val x] \<Longrightarrow>
   fst (Stack_action st s (Pop d)) = Val x \<and> contents (snd (Stack_action st s (Pop d))) s = xs"
  by (simp add: Stack_action_def Stack_pop_def array_pop_def contents_def nullish_def)

lemma Stack_action_Pop_nullish:
  "contents st s = xs @ [v] \<Longrightarrow> v = Null \<or> v = Undefined \<Longrightarrow>
   fst (Stack_action st s (Pop d)) = d \<and> contents (snd (Stack_action st s (Pop d))) s = xs"
  by (auto simp add: Stack_action_def Stack_pop_def array_pop_def contents_def nullish_def)

lemma Stack_action_Pop_removes:
  "contents (snd (Stack_action st s (Pop d))) s = butlast (contents st s)"
  by (simp add: Stack_action_def Stack_pop_def array_pop_def contents_def)

text \<open>
  Claim C3. Popping with a default returns the default on an empty stack and the top
  item on a non-empty one, also when the top item is \<^verbatim>\<open>null\<close>. The code decides
  emptiness with \<^verbatim>\<open>??\<close> on the popped value, so on the one-element stack that holds
  \<^verbatim>\<open>null\<close> it removes the item and returns the default 7, not the top item.
\<close>

theorem pop_null_top_returns_default:
  "(let (s, st1) = Stack_new (empty_store :: nat store);
        st2 = Stack_push st1 s Null
    in contents st2 s = [Null]
       \<and> fst (Stack_action st2 s (Pop (Val 7))) = Val 7
       \<and> fst (Stack_action st2 s (Pop (Val 7))) \<noteq> last (contents st2 s)
       \<and> contents (snd (Stack_action st2 s (Pop (Val 7)))) s = [])"
  by (simp add: Stack_new_def array_new_def empty_store_def Stack_push_def array_push_def
      contents_def Stack_action_def Stack_pop_def array_pop_def nullish_def)

section \<open>One step\<close>

lemma advance_result:
  "result (snd (advance st a)) =
     (case yielded st a of Resolve r \<Rightarrow> Some r | Continue sa q \<Rightarrow> result a)"
  by (simp add: advance_def yielded_def decision_def Let_def split_def
      split: input_action.splits pda_action.splits)

lemma advance_state:
  "state (snd (advance st a)) =
     (case yielded st a of Resolve r \<Rightarrow> state a | Continue sa q \<Rightarrow> q)"
  by (simp add: advance_def yielded_def decision_def Let_def split_def
      split: input_action.splits pda_action.splits)

lemma advance_store:
  "fst (advance st a) =
     (case yielded st a of
        Resolve r \<Rightarrow> after_decision st a
      | Continue sa q \<Rightarrow> snd (Stack_action (after_decision st a) (stack a) sa))"
  by (simp add: advance_def yielded_def decision_def after_decision_def Let_def split_def
      split: input_action.splits pda_action.splits)

lemma advance_fields:
  "stack (snd (advance st a)) = stack a"
  "input (snd (advance st a)) = input a"
  "transition (snd (advance st a)) = transition a"
  "initialState (snd (advance st a)) = initialState a"
  by (simp_all add: advance_def Let_def split_def split: input_action.splits pda_action.splits)

lemma after_decision_frame:
  "fld (after_decision st a) = fld st"
  "arr_next (after_decision st a) = arr_next st"
  "obj_next (after_decision st a) = obj_next st"
  by (simp_all add: after_decision_def Stack_pop_frame split: input_action.splits)

lemma yielded_PopInput:
  "decision st a = PopInput k \<Longrightarrow>
   yielded st a = k (if input_contents st a = [] then Undefined else last (input_contents st a))"
  by (simp add: yielded_def input_contents_def Stack_pop_contents)

lemma steps_transition: "transition (snd (steps n c)) = transition (snd c)"
  by (induction n arbitrary: c) (simp_all add: advance_fields)

text \<open>What a stack action does to the layout of the store and to the other stacks.\<close>

lemma Stack_action_frame:
  "sa \<noteq> Clear \<Longrightarrow> fld (snd (Stack_action st s sa)) = fld st"
  "sa \<noteq> Clear \<Longrightarrow> arr_next (snd (Stack_action st s sa)) = arr_next st"
  "obj_next (snd (Stack_action st s sa)) = obj_next st"
  "fld (snd (Stack_action st s Clear)) = (fld st)(s := arr_next st)"
  "arr_next (snd (Stack_action st s Clear)) = Suc (arr_next st)"
  by (cases sa;
      simp add: Stack_action_def Stack_delete_def Stack_push_def Stack_pop_def Stack_clear_def
        array_pop_def array_push_def array_new_def split_def)+

lemma Stack_action_other:
  assumes "fld st x \<noteq> fld st s" and "fld st x < arr_next st"
  shows "contents (snd (Stack_action st s sa)) x = contents st x"
    and "fld (snd (Stack_action st s sa)) x = fld st x"
  using assms
  by (cases sa;
      auto simp add: Stack_action_def Stack_delete_def Stack_push_def Stack_pop_def Stack_clear_def
        array_pop_def array_push_def array_new_def split_def contents_def)+

section \<open>Construction, input and reset\<close>

lemma new_automaton_fields:
  "initialState (snd (new_automaton st s0 z0 t)) = \<lparr>stackSymbol = z0, initial_state = s0\<rparr>"
  "state (snd (new_automaton st s0 z0 t)) = s0"
  "result (snd (new_automaton st s0 z0 t)) = None"
  "transition (snd (new_automaton st s0 z0 t)) = t"
  "stack (snd (new_automaton st s0 z0 t)) = obj_next st"
  "input (snd (new_automaton st s0 z0 t)) = Suc (obj_next st)"
  by (simp_all add: new_automaton_def Stack_new_def Stack_push_def array_new_def array_push_def
      Let_def split_def)

lemma new_automaton_layout:
  "fld (fst (new_automaton st s0 z0 t)) =
     (fld st)(obj_next st := arr_next st, Suc (obj_next st) := Suc (arr_next st))"
  "arr_next (fst (new_automaton st s0 z0 t)) = Suc (Suc (arr_next st))"
  "obj_next (fst (new_automaton st s0 z0 t)) = Suc (Suc (obj_next st))"
  by (simp_all add: new_automaton_def Stack_new_def Stack_push_def array_new_def array_push_def
      Let_def split_def)

lemma new_automaton_contents:
  "stack_contents (fst (new_automaton st s0 z0 t)) (snd (new_automaton st s0 z0 t)) = [z0]"
  "input_contents (fst (new_automaton st s0 z0 t)) (snd (new_automaton st s0 z0 t)) = []"
  by (simp_all add: new_automaton_def Let_def split_def stack_contents_def input_contents_def
      contents_def Stack_new_def Stack_push_def array_new_def array_push_def)

lemma new_automaton_apart:
  "apart (fst (new_automaton st s0 z0 t)) (snd (new_automaton st s0 z0 t))"
  by (simp add: apart_def new_automaton_fields new_automaton_layout)

lemma setInput_fields:
  "stack (snd (setInput st a r)) = stack a"
  "state (snd (setInput st a r)) = state a"
  "transition (snd (setInput st a r)) = transition a"
  "result (snd (setInput st a r)) = result a"
  "initialState (snd (setInput st a r)) = initialState a"
  "input (snd (setInput st a r)) = obj_next st"
  by (simp_all add: setInput_def Stack_fromArray_def Stack_new_def array_new_def split_def Let_def)

lemma setInput_layout:
  "fld (fst (setInput st a r)) = (fld st)(obj_next st := r)"
  "arr_next (fst (setInput st a r)) = Suc (arr_next st)"
  "obj_next (fst (setInput st a r)) = Suc (obj_next st)"
  "arr (fst (setInput st a r)) = (arr st)(arr_next st := [])"
  by (simp_all add: setInput_def Stack_fromArray_def Stack_new_def array_new_def split_def Let_def)

lemma setInput_contents:
  "r < arr_next st \<Longrightarrow>
   input_contents (fst (setInput st a r)) (snd (setInput st a r)) = arr st r"
  "fld (fst (setInput st a r)) (input (snd (setInput st a r))) = r"
  by (simp_all add: input_contents_def contents_def setInput_layout setInput_fields)

lemma reset_fields:
  "transition (snd (reset st a)) = transition a"
  "initialState (snd (reset st a)) = initialState a"
  "result (snd (reset st a)) = None"
  "state (snd (reset st a)) = initial_state (initialState a)"
  "stack (snd (reset st a)) = obj_next st"
  "input (snd (reset st a)) = Suc (obj_next st)"
  by (simp_all add: reset_def Stack_new_def Stack_push_def array_new_def array_push_def
      Let_def split_def)

lemma reset_layout:
  "fld (fst (reset st a)) =
     (fld st)(obj_next st := arr_next st, Suc (obj_next st) := Suc (arr_next st))"
  "arr_next (fst (reset st a)) = Suc (Suc (arr_next st))"
  "obj_next (fst (reset st a)) = Suc (Suc (obj_next st))"
  by (simp_all add: reset_def Stack_new_def Stack_push_def array_new_def array_push_def
      Let_def split_def)

lemma reset_contents:
  "stack_contents (fst (reset st a)) (snd (reset st a)) = [stackSymbol (initialState a)]"
  "input_contents (fst (reset st a)) (snd (reset st a)) = []"
  by (simp_all add: reset_def Let_def split_def stack_contents_def input_contents_def
      contents_def Stack_new_def Stack_push_def array_new_def array_push_def)

lemma fed_setInput:
  "fed s0 t xs =
     setInput (fst (new_automaton (snd (array_new empty_store xs)) s0 (Val 0) t))
              (snd (new_automaton (snd (array_new empty_store xs)) s0 (Val 0) t)) 0"
  by (simp add: fed_def array_new_def empty_store_def split_def Let_def)

lemma fed_transition: "transition (snd (fed s0 t xs)) = t"
  by (simp add: fed_setInput setInput_fields new_automaton_fields)

lemma self_fed_transition: "transition (snd (self_fed s0 z0 t)) = t"
  by (simp add: self_fed_def replaceInput_def new_automaton_fields split_def Let_def)

section \<open>Claims about one step and about the input\<close>

lemma ignore_step:
  assumes "apart st a" and "fld st (input a) < arr_next st"
    and "is_ignore_input (decision st a)"
  shows "apart (fst (advance st a)) (snd (advance st a))"
    and "fld (fst (advance st a)) (input (snd (advance st a))) < arr_next (fst (advance st a))"
    and "input_contents (fst (advance st a)) (snd (advance st a)) = input_contents st a"
proof -
  from assms(3) have d: "after_decision st a = st"
    by (cases "decision st a") (simp_all add: after_decision_def)
  from assms(1) have ne: "fld st (input a) \<noteq> fld st (stack a)"
    by (simp add: apart_def)
  show "input_contents (fst (advance st a)) (snd (advance st a)) = input_contents st a"
    using Stack_action_other(1) [OF ne assms(2)]
    by (simp add: advance_store advance_fields d input_contents_def split: pda_action.splits)
  have f: "fld (fst (advance st a)) (input a) = fld st (input a)"
    using Stack_action_other(2) [OF ne assms(2)]
    by (simp add: advance_store d split: pda_action.splits)
  have n: "arr_next st \<le> arr_next (fst (advance st a))"
  proof (cases "yielded st a")
    case (Continue sa q)
    then show ?thesis
      by (cases "sa = Clear") (simp_all add: advance_store d Stack_action_frame)
  next
    case (Resolve r)
    then show ?thesis by (simp add: advance_store d)
  qed
  from f n assms(2)
  show "fld (fst (advance st a)) (input (snd (advance st a))) < arr_next (fst (advance st a))"
    by (simp add: advance_fields)
  have "fld (fst (advance st a)) (stack a) \<noteq> fld st (input a)"
  proof (cases "yielded st a")
    case (Continue sa q)
    then show ?thesis using ne assms(2)
      by (cases "sa = Clear") (auto simp add: advance_store d Stack_action_frame)
  next
    case (Resolve r)
    then show ?thesis using ne by (simp add: advance_store d)
  qed
  with f show "apart (fst (advance st a)) (snd (advance st a))"
    by (simp add: apart_def advance_fields)
qed

lemma ignoring_steps:
  "ignoring n c \<Longrightarrow> apart (fst c) (snd c) \<Longrightarrow>
   fld (fst c) (input (snd c)) < arr_next (fst c) \<Longrightarrow>
   input_contents (fst (steps n c)) (snd (steps n c)) = input_contents (fst c) (snd c)"
proof (induction n arbitrary: c)
  case 0
  then show ?case by simp
next
  case (Suc n)
  from Suc.prems(1) have d: "is_ignore_input (decision (fst c) (snd c))"
    and i: "ignoring n (advance (fst c) (snd c))" by simp_all
  note s = ignore_step [OF Suc.prems(2,3) d]
  from Suc.IH [OF i s(1,2)] s(3) show ?case by simp
qed

text \<open>
  Claim C1 (as amended). After the input-setting operation on the caller's array, the
  input queue holds exactly the symbols of the array. When the control stack is not built
  on that same array, the next step that pops the input, after any number of steps that
  ignore it, passes the last element of the array to the continuation (\<^verbatim>\<open>undefined\<close>
  when the array is empty).
\<close>

theorem setInput_last_element_consumed_first:
  assumes "r < arr_next st"
    and "setInput st a r = c"
    and "apart (fst c) (snd c)"
    and "ignoring n c"
    and "decision (fst (steps n c)) (snd (steps n c)) = PopInput continue"
  shows "input_contents (fst c) (snd c) = arr st r
       \<and> yielded (fst (steps n c)) (snd (steps n c)) =
           continue (if arr st r = [] then Undefined else last (arr st r))"
proof -
  have c: "input_contents (fst c) (snd c) = arr st r"
    using assms(1,2) setInput_contents(1) by blast
  have "fld (fst c) (input (snd c)) = r"
    using assms(2) setInput_contents(2) by blast
  moreover have "arr_next (fst c) = Suc (arr_next st)"
    using assms(2) setInput_layout(2) by blast
  ultimately have "fld (fst c) (input (snd c)) < arr_next (fst c)"
    using assms(1) by simp
  from ignoring_steps [OF assms(4,3) this] c yielded_PopInput [OF assms(5)]
  show ?thesis by simp
qed

theorem setInput_last_element_consumed_first_witness:
  "apart (fst (fed Undefined echo [Val 1, Val 2])) (snd (fed Undefined echo [Val 1, Val 2]))
   \<and> ignoring (Suc 0) (fed Undefined echo [Val 1, Val 2])
   \<and> decision (fst (steps (Suc 0) (fed Undefined echo [Val 1, Val 2])))
               (snd (steps (Suc 0) (fed Undefined echo [Val 1, Val 2])))
       = PopInput (\<lambda>x. Continue Ignore x)
   \<and> input_contents (fst (fed Undefined echo [Val 1, Val 2]))
                     (snd (fed Undefined echo [Val 1, Val 2])) = [Val 1, Val 2]
   \<and> yielded (fst (steps (Suc 0) (fed Undefined echo [Val 1, Val 2])))
              (snd (steps (Suc 0) (fed Undefined echo [Val 1, Val 2])))
       = Continue Ignore (Val 2)"
proof -
  let ?n = "new_automaton (snd (array_new empty_store [Val 1, Val 2])) Undefined (Val 0) echo"
  let ?c = "fed Undefined echo [Val 1, Val 2]"
  have r: "0 < arr_next (fst ?n)" by code_simp
  have f: "setInput (fst ?n) (snd ?n) 0 = ?c" by (simp only: fed_setInput)
  have p: "apart (fst ?c) (snd ?c)" by code_simp
  have g: "ignoring (Suc 0) ?c" by code_simp
  have q: "state (snd (steps (Suc 0) ?c)) = Null" by code_simp
  have d: "decision (fst (steps (Suc 0) ?c)) (snd (steps (Suc 0) ?c))
             = PopInput (\<lambda>x. Continue Ignore x)"
    unfolding decision_def steps_transition fed_transition q by (simp add: echo_def)
  have x: "arr (fst ?n) 0 = [Val 1, Val 2]" by code_simp
  from setInput_last_element_consumed_first [OF r f p g d] x p g d show ?thesis by simp
qed

text \<open>
  The first element is not consumed first: with the input \<open>[1, 2]\<close> the first step that
  pops the input hands 2 to its continuation, and the input queue then holds \<open>[1]\<close>.
\<close>

theorem setInput_first_element_not_consumed_first:
  "input_contents (fst (fed Undefined echo [Val 1, Val 2]))
                  (snd (fed Undefined echo [Val 1, Val 2])) = [Val 1, Val 2]
   \<and> decision (fst (steps (Suc 0) (fed Undefined echo [Val 1, Val 2])))
               (snd (steps (Suc 0) (fed Undefined echo [Val 1, Val 2])))
       = PopInput (\<lambda>x. Continue Ignore x)
   \<and> yielded (fst (steps (Suc 0) (fed Undefined echo [Val 1, Val 2])))
              (snd (steps (Suc 0) (fed Undefined echo [Val 1, Val 2])))
       = Continue Ignore (Val 2)
   \<and> yielded (fst (steps (Suc 0) (fed Undefined echo [Val 1, Val 2])))
              (snd (steps (Suc 0) (fed Undefined echo [Val 1, Val 2])))
       \<noteq> Continue Ignore (hd [Val 1, Val 2])
   \<and> state (snd (steps (Suc (Suc 0)) (fed Undefined echo [Val 1, Val 2]))) = Val 2
   \<and> input_contents (fst (steps (Suc (Suc 0)) (fed Undefined echo [Val 1, Val 2])))
                     (snd (steps (Suc (Suc 0)) (fed Undefined echo [Val 1, Val 2]))) = [Val 1]"
proof -
  let ?c = "fed Undefined echo [Val 1, Val 2]"
  have i: "input_contents (fst ?c) (snd ?c) = [Val 1, Val 2]" by code_simp
  have q: "state (snd (steps (Suc 0) ?c)) = Null" by code_simp
  have d: "decision (fst (steps (Suc 0) ?c)) (snd (steps (Suc 0) ?c))
             = PopInput (\<lambda>x. Continue Ignore x)"
    unfolding decision_def steps_transition fed_transition q by (simp add: echo_def)
  have y: "yielded (fst (steps (Suc 0) ?c)) (snd (steps (Suc 0) ?c)) = Continue Ignore (Val 2)"
    by code_simp
  have s: "state (snd (steps (Suc (Suc 0)) ?c)) = Val 2" by code_simp
  have j: "input_contents (fst (steps (Suc (Suc 0)) ?c)) (snd (steps (Suc (Suc 0)) ?c)) = [Val 1]"
    by code_simp
  from i d y s j show ?thesis by simp
qed

text \<open>
  Claim C2. With an empty control stack a step reads \<^verbatim>\<open>undefined\<close> as the head of the
  stack and asks the transition function for the current state and that absent symbol;
  the result after the step is the result of the yielded action when that is a resolve
  action and is left as it was otherwise; and the step depends on the transition function
  through its answer to that one question only.
\<close>

theorem advance_empty_stack_asks_transition:
  "stack_contents st a = [] \<Longrightarrow>
     Stack_head st (stack a) = Undefined
   \<and> decision st a = transition a (state a) Undefined
   \<and> yielded st a =
       (case transition a (state a) Undefined of
          PopInput continue \<Rightarrow> continue (fst (Stack_pop st (input a)))
        | IgnoreInput continue \<Rightarrow> continue)
   \<and> result (snd (advance st a)) =
       (case yielded st a of Resolve r \<Rightarrow> Some r | Continue sa q \<Rightarrow> result a)
   \<and> (\<forall>t. t (state a) Undefined = transition a (state a) Undefined \<longrightarrow>
          advance st (a\<lparr>transition := t\<rparr>)
            = (fst (advance st a), (snd (advance st a))\<lparr>transition := t\<rparr>))"
  apply (intro conjI)
      apply (simp add: stack_contents_def contents_def Stack_head_def array_last_def)
     apply (simp add: decision_def stack_contents_def contents_def Stack_head_def array_last_def)
    apply (simp add: yielded_def decision_def stack_contents_def contents_def Stack_head_def
      array_last_def)
   apply (rule advance_result)
  apply (simp add: advance_def stack_contents_def contents_def Stack_head_def array_last_def
      Let_def split_def split: input_action.splits pda_action.splits)
  done

theorem advance_empty_stack_asks_transition_witness:
  "stack_contents (fst (steps (Suc 0) (fed 0 drain []))) (snd (steps (Suc 0) (fed 0 drain []))) = []
   \<and> Stack_head (fst (steps (Suc 0) (fed 0 drain [])))
                 (stack (snd (steps (Suc 0) (fed 0 drain [])))) = Undefined
   \<and> result (snd (steps (Suc 0) (fed 0 drain []))) = None
   \<and> result (snd (steps (Suc (Suc 0)) (fed 0 drain []))) = Some Accept
   \<and> stack_contents (fst (steps (Suc 0) (fed 0 delete_delete_push [])))
                     (snd (steps (Suc 0) (fed 0 delete_delete_push []))) = []
   \<and> result (snd (steps (Suc (Suc 0)) (fed 0 delete_delete_push []))) = None"
proof -
  let ?c = "steps (Suc 0) (fed 0 drain [])"
  let ?d = "steps (Suc 0) (fed 0 delete_delete_push [])"
  have e: "stack_contents (fst ?c) (snd ?c) = []" by code_simp
  have y: "yielded (fst ?c) (snd ?c) = Resolve Accept" by code_simp
  have r: "result (snd ?c) = None" by code_simp
  have e': "stack_contents (fst ?d) (snd ?d) = []" by code_simp
  have y': "yielded (fst ?d) (snd ?d) = Continue Delete 2" by code_simp
  have r': "result (snd ?d) = None" by code_simp
  from advance_empty_stack_asks_transition [OF e] y r
    advance_empty_stack_asks_transition [OF e'] y' r' e e'
  show ?thesis by simp
qed

lemma after_decision_contents:
  "is_ignore_input (decision st a) \<or> fld st x \<noteq> fld st (input a) \<Longrightarrow>
   contents (after_decision st a) x = contents st x"
  "\<not> is_ignore_input (decision st a) \<Longrightarrow> fld st x = fld st (input a) \<Longrightarrow>
   contents (after_decision st a) x = butlast (contents st x)"
  by (cases "decision st a"; auto simp add: after_decision_def Stack_pop_frame)+

text \<open>
  Claim C4 (as amended). When the action a step works with is a resolve action, the step
  records its result, applies no stack action and leaves the state and the stack field as
  they were: the store it leaves is the store after the input was popped or ignored. The
  contents of the control stack are unchanged when the step ignored the input or the
  control stack and the input queue do not share an array; a resolving step that pops the
  input from an array shared with the control stack removes the top of the control stack.
\<close>

theorem advance_resolve_frame:
  "yielded st a = Resolve r \<Longrightarrow>
     result (snd (advance st a)) = Some r
   \<and> state (snd (advance st a)) = state a
   \<and> stack (snd (advance st a)) = stack a
   \<and> fst (advance st a) = after_decision st a
   \<and> (is_ignore_input (decision st a) \<or> apart st a \<longrightarrow>
        stack_contents (fst (advance st a)) (snd (advance st a)) = stack_contents st a)
   \<and> (\<not> is_ignore_input (decision st a) \<and> \<not> apart st a \<longrightarrow>
        stack_contents (fst (advance st a)) (snd (advance st a)) = butlast (stack_contents st a))"
  using after_decision_contents [of st a "stack a"]
  by (auto simp add: advance_result advance_state advance_store advance_fields
      stack_contents_def apart_def)

theorem advance_resolve_frame_witness:
  "yielded (fst (fed 0 picky [Val 0, Val 1])) (snd (fed 0 picky [Val 0, Val 1])) = Resolve Accept
   \<and> apart (fst (fed 0 picky [Val 0, Val 1])) (snd (fed 0 picky [Val 0, Val 1]))
   \<and> result (snd (steps (Suc 0) (fed 0 picky [Val 0, Val 1]))) = Some Accept
   \<and> stack_contents (fst (steps (Suc 0) (fed 0 picky [Val 0, Val 1])))
                     (snd (steps (Suc 0) (fed 0 picky [Val 0, Val 1]))) = [Val 0]
   \<and> state (snd (steps (Suc 0) (fed 0 picky [Val 0, Val 1]))) = 0"
proof -
  let ?c = "fed 0 picky [Val 0, Val 1]"
  have y: "yielded (fst ?c) (snd ?c) = Resolve Accept" by code_simp
  have p: "apart (fst ?c) (snd ?c)" by code_simp
  have s: "stack_contents (fst ?c) (snd ?c) = [Val 0]" by code_simp
  have q: "state (snd ?c) = 0" by code_simp
  have e: "steps (Suc 0) ?c = advance (fst ?c) (snd ?c)" by simp
  note k = advance_resolve_frame [OF y]
  have r': "result (snd (advance (fst ?c) (snd ?c))) = Some Accept"
    by (rule k [THEN conjunct1])
  have q': "state (snd (advance (fst ?c) (snd ?c))) = 0"
    using k [THEN conjunct2, THEN conjunct1] by (simp only: q)
  have "is_ignore_input (decision (fst ?c) (snd ?c)) \<or> apart (fst ?c) (snd ?c)"
    using p by (rule disjI2)
  from mp [OF k [THEN conjunct2, THEN conjunct2, THEN conjunct2, THEN conjunct2, THEN conjunct1]
      this]
  have s': "stack_contents (fst (advance (fst ?c) (snd ?c))) (snd (advance (fst ?c) (snd ?c)))
              = [Val 0]"
    by (simp only: s)
  show ?thesis
    unfolding e by (intro conjI y p r' s' q')
qed

text \<open>
  A resolving step can change the control stack: when the input queue is the control
  stack itself, the step that pops the input and rejects leaves the control stack empty.
\<close>

theorem advance_resolve_pops_shared_stack:
  "stack_contents (fst (self_fed 0 (Val 0) picky)) (snd (self_fed 0 (Val 0) picky)) = [Val 0]
   \<and> yielded (fst (self_fed 0 (Val 0) picky)) (snd (self_fed 0 (Val 0) picky)) = Resolve Reject
   \<and> result (snd (steps (Suc 0) (self_fed 0 (Val 0) picky))) = Some Reject
   \<and> stack_contents (fst (steps (Suc 0) (self_fed 0 (Val 0) picky)))
                     (snd (steps (Suc 0) (self_fed 0 (Val 0) picky))) = []"
  by code_simp

text \<open>
  Claim C10 (as amended). A step whose decision is to pop, on a non-empty input queue,
  hands the last symbol of the queue to the continuation and removes it before the action
  is looked at; when that action is a resolve action nothing else happens to the store, so
  the queue is one symbol shorter and the state is unchanged. The control stack is
  unchanged when it does not share its array with the input queue; when it does, it has
  lost its top symbol as well.
\<close>

theorem advance_pop_resolve_consumes:
  assumes "decision st a = PopInput continue"
    and "input_contents st a \<noteq> []"
  shows "yielded st a = continue (last (input_contents st a))
       \<and> input_contents (after_decision st a) a = butlast (input_contents st a)
       \<and> (\<forall>r. yielded st a = Resolve r \<longrightarrow>
             fst (advance st a) = after_decision st a
           \<and> result (snd (advance st a)) = Some r
           \<and> input_contents (fst (advance st a)) (snd (advance st a))
               = butlast (input_contents st a)
           \<and> Suc (length (input_contents (fst (advance st a)) (snd (advance st a))))
               = length (input_contents st a)
           \<and> state (snd (advance st a)) = state a
           \<and> (apart st a \<longrightarrow>
                stack_contents (fst (advance st a)) (snd (advance st a)) = stack_contents st a)
           \<and> (\<not> apart st a \<longrightarrow>
                stack_contents (fst (advance st a)) (snd (advance st a))
                  = butlast (stack_contents st a)))"
proof -
  from assms(1) have n: "\<not> is_ignore_input (decision st a)" by simp
  have i: "input_contents (after_decision st a) a = butlast (input_contents st a)"
    using after_decision_contents(2) [OF n, of "input a"] by (simp add: input_contents_def)
  have s1: "apart st a \<Longrightarrow> stack_contents (after_decision st a) a = stack_contents st a"
    using after_decision_contents(1) [of st a "stack a"]
    by (simp add: stack_contents_def apart_def)
  have s2: "\<not> apart st a \<Longrightarrow>
            stack_contents (after_decision st a) a = butlast (stack_contents st a)"
    using after_decision_contents(2) [OF n, of "stack a"]
    by (simp add: stack_contents_def apart_def)
  from assms i s1 s2 show ?thesis
    by (auto simp add: yielded_PopInput advance_store advance_fields advance_result
        advance_state input_contents_def stack_contents_def)
qed

theorem advance_pop_resolve_consumes_witness:
  "decision (fst (fed 0 picky [Val 0, Val 1])) (snd (fed 0 picky [Val 0, Val 1]))
     = PopInput (\<lambda>x. if x = Val 1 then Resolve Accept else Resolve Reject)
   \<and> input_contents (fst (fed 0 picky [Val 0, Val 1])) (snd (fed 0 picky [Val 0, Val 1]))
       = [Val 0, Val 1]
   \<and> apart (fst (fed 0 picky [Val 0, Val 1])) (snd (fed 0 picky [Val 0, Val 1]))
   \<and> yielded (fst (fed 0 picky [Val 0, Val 1])) (snd (fed 0 picky [Val 0, Val 1])) = Resolve Accept
   \<and> input_contents (fst (steps (Suc 0) (fed 0 picky [Val 0, Val 1])))
                     (snd (steps (Suc 0) (fed 0 picky [Val 0, Val 1]))) = [Val 0]
   \<and> stack_contents (fst (steps (Suc 0) (fed 0 picky [Val 0, Val 1])))
                     (snd (steps (Suc 0) (fed 0 picky [Val 0, Val 1]))) = [Val 0]
   \<and> state (snd (steps (Suc 0) (fed 0 picky [Val 0, Val 1]))) = 0"
proof -
  let ?c = "fed 0 picky [Val 0, Val 1]"
  have d: "decision (fst ?c) (snd ?c)
             = PopInput (\<lambda>x. if x = Val 1 then Resolve Accept else Resolve Reject)"
    unfolding decision_def fed_transition by (simp add: picky_def)
  have i: "input_contents (fst ?c) (snd ?c) = [Val 0, Val 1]" by code_simp
  then have n: "input_contents (fst ?c) (snd ?c) \<noteq> []" by simp
  have p: "apart (fst ?c) (snd ?c)" by code_simp
  have y: "yielded (fst ?c) (snd ?c) = Resolve Accept" by code_simp
  have s: "stack_contents (fst ?c) (snd ?c) = [Val 0]" by code_simp
  have q: "state (snd ?c) = 0" by code_simp
  have e: "steps (Suc 0) ?c = advance (fst ?c) (snd ?c)" by simp
  note k = advance_pop_resolve_consumes [OF d n]
  note kr = mp [OF spec [OF k [THEN conjunct2, THEN conjunct2]] y]
  have "input_contents (fst (advance (fst ?c) (snd ?c))) (snd (advance (fst ?c) (snd ?c)))
          = butlast (input_contents (fst ?c) (snd ?c))"
    by (rule kr [THEN conjunct2, THEN conjunct2, THEN conjunct1])
  also have "\<dots> = [Val 0]" unfolding i by simp
  finally have i':
    "input_contents (fst (advance (fst ?c) (snd ?c))) (snd (advance (fst ?c) (snd ?c))) = [Val 0]" .
  have q': "state (snd (advance (fst ?c) (snd ?c))) = 0"
    using kr [THEN conjunct2, THEN conjunct2, THEN conjunct2, THEN conjunct2, THEN conjunct1]
    by (simp only: q)
  from mp [OF kr [THEN conjunct2, THEN conjunct2, THEN conjunct2, THEN conjunct2, THEN conjunct2,
        THEN conjunct1] p]
  have s': "stack_contents (fst (advance (fst ?c) (snd ?c))) (snd (advance (fst ?c) (snd ?c)))
              = [Val 0]"
    by (simp only: s)
  show ?thesis
    unfolding e by (intro conjI d i p y i' s' q')
qed

text \<open>
  The control stack does not always stay as it was: when the input queue is the control
  stack itself, holding the symbol 1, the step that pops it and accepts leaves both empty.
\<close>

theorem advance_pop_resolve_shortens_shared_stack:
  "input_contents (fst (self_fed 0 (Val 1) picky)) (snd (self_fed 0 (Val 1) picky)) = [Val 1]
   \<and> stack_contents (fst (self_fed 0 (Val 1) picky)) (snd (self_fed 0 (Val 1) picky)) = [Val 1]
   \<and> yielded (fst (self_fed 0 (Val 1) picky)) (snd (self_fed 0 (Val 1) picky)) = Resolve Accept
   \<and> input_contents (fst (steps (Suc 0) (self_fed 0 (Val 1) picky)))
                     (snd (steps (Suc 0) (self_fed 0 (Val 1) picky))) = []
   \<and> stack_contents (fst (steps (Suc 0) (self_fed 0 (Val 1) picky)))
                     (snd (steps (Suc 0) (self_fed 0 (Val 1) picky))) = []
   \<and> state (snd (steps (Suc 0) (self_fed 0 (Val 1) picky))) = 0"
  by code_simp

section \<open>Claims about runs\<close>

lemma exec_initialState: "initialState (snd (exec x c)) = initialState (snd c)"
  by (cases x; cases c)
     (simp_all add: advance_fields reset_fields setInput_fields overrideState_def
        overrideTransitionFunction_def replaceStack_def replaceInput_def)

lemma run_initialState: "initialState (snd (run ops c)) = initialState (snd c)"
  by (induction ops arbitrary: c) (simp_all add: exec_initialState)

lemma exec_transition:
  "transition (snd (exec x c)) =
     (case x of OverrideTransitionFunction t \<Rightarrow> t | _ \<Rightarrow> transition (snd c))"
  by (cases x; cases c)
     (simp_all add: advance_fields reset_fields setInput_fields overrideState_def
        overrideTransitionFunction_def replaceStack_def replaceInput_def)

lemma run_transition: "transition (snd (run ops c)) = overridden (transition (snd c)) ops"
proof (induction ops arbitrary: c)
  case Nil
  then show ?case by simp
next
  case (Cons x xs)
  then show ?case by (cases x) (simp_all add: exec_transition)
qed

lemma exec_result:
  "\<not> is_reset x \<Longrightarrow> result (snd c) \<noteq> None \<Longrightarrow> result (snd (exec x c)) \<noteq> None"
  by (cases x; cases c)
     (simp_all add: advance_result setInput_fields overrideState_def
        overrideTransitionFunction_def replaceStack_def replaceInput_def
        split: pda_action.splits)

lemma run_result:
  "list_all (\<lambda>x. \<not> is_reset x) ops \<Longrightarrow> result (snd c) \<noteq> None \<Longrightarrow>
   result (snd (run ops c)) \<noteq> None"
proof (induction ops arbitrary: c)
  case Nil
  then show ?case by simp
next
  case (Cons x xs)
  from Cons.prems have "result (snd (exec x c)) \<noteq> None"
    by (simp add: exec_result)
  with Cons.IH [of "exec x c"] Cons.prems(1) show ?case by simp
qed

text \<open>
  Claim C6. Whatever the caller did to an automaton constructed with \<open>(s0, z0, t)\<close>
  (steps, new input, replaced state, stacks or transition function, earlier resets), after
  \<^verbatim>\<open>reset()\<close> the state is \<open>s0\<close>, the control stack holds exactly \<open>z0\<close>, the result
  is absent and the input queue is empty, while the transition function is the one in
  place before the reset: the last one the caller put there, or \<open>t\<close>.
\<close>

theorem reset_restores_initial:
  assumes "run ops (new_automaton st s0 z0 t) = (st1, a1)"
    and "reset st1 a1 = (st2, a2)"
  shows "state a2 = s0 \<and> stack_contents st2 a2 = [z0] \<and> result a2 = None
       \<and> input_contents st2 a2 = [] \<and> transition a2 = transition a1
       \<and> transition a2 = overridden t ops"
proof -
  have i: "initialState a1 = \<lparr>stackSymbol = z0, initial_state = s0\<rparr>"
    using run_initialState [of ops "new_automaton st s0 z0 t"] assms(1)
    by (simp add: new_automaton_fields)
  have t: "transition a1 = overridden t ops"
    using run_transition [of ops "new_automaton st s0 z0 t"] assms(1)
    by (simp add: new_automaton_fields)
  have r: "st2 = fst (reset st1 a1)" "a2 = snd (reset st1 a1)"
    using assms(2) by simp_all
  show ?thesis
    unfolding r by (simp add: reset_fields reset_contents i t)
qed

theorem reset_restores_initial_witness:
  "state (snd tinkered) = 5
   \<and> result (snd tinkered) = Some Accept
   \<and> stack_contents (fst tinkered) (snd tinkered) = []
   \<and> input_contents (fst tinkered) (snd tinkered) = [Val 1]
   \<and> state (snd (reset (fst tinkered) (snd tinkered))) = 0
   \<and> stack_contents (fst (reset (fst tinkered) (snd tinkered)))
                     (snd (reset (fst tinkered) (snd tinkered))) = [Val 0]
   \<and> result (snd (reset (fst tinkered) (snd tinkered))) = None
   \<and> input_contents (fst (reset (fst tinkered) (snd tinkered)))
                     (snd (reset (fst tinkered) (snd tinkered))) = []
   \<and> transition (snd (reset (fst tinkered) (snd tinkered))) = drain"
proof -
  let ?n = "new_automaton (snd (array_new empty_store [Val 1, Val 2])) 0 (Val 0) picky"
  let ?r = "reset (fst tinkered) (snd tinkered)"
  have s: "state (snd tinkered) = 5" by code_simp
  have r: "result (snd tinkered) = Some Accept" by code_simp
  have k: "stack_contents (fst tinkered) (snd tinkered) = []" by code_simp
  have i: "input_contents (fst tinkered) (snd tinkered) = [Val 1]" by code_simp
  have h1: "run tinkering ?n = (fst tinkered, snd tinkered)"
    by (simp add: tinkered_def)
  have h2: "reset (fst tinkered) (snd tinkered) = (fst ?r, snd ?r)" by simp
  have o: "overridden picky tinkering = drain"
    by (simp add: tinkering_def)
  note c = reset_restores_initial [OF h1 h2]
  from c have "transition (snd ?r) = overridden picky tinkering" by blast
  then have t: "transition (snd ?r) = drain" by (simp only: o)
  from c s r k i t show ?thesis by blast
qed

text \<open>
  Claim C7 (as amended). The result is absent after construction and after a reset. A step
  whose action is a continue action leaves the result as it is; a step whose action is a
  resolve action sets it to that action's result, whether or not a result was set already.
  No operation other than a reset returns a result that is set to absent.
\<close>

theorem result_set_by_every_resolving_step:
  assumes "list_all (\<lambda>x. \<not> is_reset x) ops"
  shows "result (snd (new_automaton st s0 z0 t)) = None
       \<and> result (snd (reset st a)) = None
       \<and> result (snd (advance st a)) =
           (case yielded st a of Resolve r \<Rightarrow> Some r | Continue sa q \<Rightarrow> result a)
       \<and> (result (snd c) \<noteq> None \<longrightarrow> result (snd (run ops c)) \<noteq> None)"
  using assms by (simp add: new_automaton_fields reset_fields advance_result run_result)

theorem result_set_by_every_resolving_step_witness:
  "list_all (\<lambda>x. \<not> is_reset x) [Advance, Input 0, OverrideState 3, RunStackAction Clear, Advance]
   \<and> result (snd (steps (Suc 0) (fed 0 picky [Val 0, Val 1]))) = Some Accept
   \<and> result (snd (run [Advance, Input 0, OverrideState 3, RunStackAction Clear, Advance]
                   (steps (Suc 0) (fed 0 picky [Val 0, Val 1])))) \<noteq> None"
proof -
  let ?ops = "[Advance, Input 0, OverrideState 3, RunStackAction Clear, Advance]"
  let ?c = "steps (Suc 0) (fed 0 picky [Val 0, Val 1])"
  have l: "list_all (\<lambda>x. \<not> is_reset x) ?ops" by simp
  have r: "result (snd ?c) = Some Accept" by code_simp
  note k = result_set_by_every_resolving_step [OF l, where c = ?c]
  have n: "result (snd ?c) \<noteq> None" using r by simp
  have "result (snd (run ?ops ?c)) \<noteq> None"
    by (rule mp [OF k [THEN conjunct2, THEN conjunct2, THEN conjunct2] n])
  with l r show ?thesis by blast
qed

text \<open>
  A set result does change: fed \<open>[0, 1]\<close>, the automaton that accepts the symbol 1 and
  rejects every other symbol accepts in its first step and rejects in its second.
\<close>

theorem result_overwritten_by_later_step:
  "result (snd (fed 0 picky [Val 0, Val 1])) = None
   \<and> result (snd (steps (Suc 0) (fed 0 picky [Val 0, Val 1]))) = Some Accept
   \<and> result (snd (steps (Suc (Suc 0)) (fed 0 picky [Val 0, Val 1]))) = Some Reject"
  by code_simp

section \<open>The size of the control stack\<close>

lemma Stack_action_length:
  "push_delete_ignore (Continue sa q) \<Longrightarrow>
   length (contents (snd (Stack_action st s sa)) s)
     + (if sa = Delete \<and> contents st s \<noteq> [] then 1 else 0)
   = length (contents st s) + (if (\<exists>x. sa = Push x) then 1 else 0)"
  by (cases sa)
     (auto simp add: Stack_action_def Stack_delete_def Stack_push_def array_pop_def
        array_push_def contents_def)

lemma is_push_Continue: "is_push (Continue sa q) = (\<exists>x. sa = Push x)"
  by (cases sa) simp_all

lemma is_delete_Continue: "is_delete (Continue sa q) = (sa = Delete)"
  by (cases sa) simp_all

lemma push_delete_ignore_not_Clear: "push_delete_ignore (Continue sa q) \<Longrightarrow> sa \<noteq> Clear"
  by (cases sa) simp_all

lemma advance_length:
  assumes "push_delete_ignore (yielded st a)" and "apart st a"
  shows "length (stack_contents (fst (advance st a)) (snd (advance st a)))
           + (if is_delete (yielded st a) \<and> stack_contents st a \<noteq> [] then 1 else 0)
         = length (stack_contents st a) + (if is_push (yielded st a) then 1 else 0)"
    and "apart (fst (advance st a)) (snd (advance st a))"
proof -
  have k: "contents (after_decision st a) (stack a) = contents st (stack a)"
    using assms(2) after_decision_contents(1) [of st a "stack a"] by (simp add: apart_def)
  show "length (stack_contents (fst (advance st a)) (snd (advance st a)))
           + (if is_delete (yielded st a) \<and> stack_contents st a \<noteq> [] then 1 else 0)
         = length (stack_contents st a) + (if is_push (yielded st a) then 1 else 0)"
  proof (cases "yielded st a")
    case (Continue sa q)
    with assms have "push_delete_ignore (Continue sa q)" by simp
    from Stack_action_length [OF this, of "after_decision st a" "stack a"] Continue k
    show ?thesis
      by (simp add: stack_contents_def advance_store advance_fields is_push_Continue
          is_delete_Continue)
  next
    case (Resolve r)
    with k show ?thesis
      by (simp add: stack_contents_def advance_store advance_fields)
  qed
  show "apart (fst (advance st a)) (snd (advance st a))"
  proof (cases "yielded st a")
    case (Continue sa q)
    with assms have "sa \<noteq> Clear" by (simp add: push_delete_ignore_not_Clear)
    with Continue assms(2) show ?thesis
      by (simp add: apart_def advance_store advance_fields Stack_action_frame
          after_decision_frame)
  next
    case (Resolve r)
    with assms(2) show ?thesis
      by (simp add: apart_def advance_store advance_fields after_decision_frame)
  qed
qed

lemma restricted_yielded: "restricted (transition a) \<Longrightarrow> push_delete_ignore (yielded st a)"
  unfolding restricted_def yielded_def decision_def
  by (auto split: input_action.splits dest!: spec)

lemma steps_length:
  "restricted (transition (snd c)) \<Longrightarrow> apart (fst c) (snd c) \<Longrightarrow>
   length (stack_contents (fst (steps n c)) (snd (steps n c))) + effective_deletes n c
   = length (stack_contents (fst c) (snd c)) + pushes n c"
proof (induction n arbitrary: c)
  case 0
  then show ?case by simp
next
  case (Suc n)
  let ?c = "advance (fst c) (snd c)"
  have "restricted (transition (snd ?c))"
    using Suc.prems(1) by (simp add: advance_fields)
  note a = advance_length [OF restricted_yielded [OF Suc.prems(1)] Suc.prems(2)]
  from Suc.IH [OF \<open>restricted (transition (snd ?c))\<close> a(2)] a(1)
  show ?case by simp
qed

lemma effective_le_deletes: "effective_deletes n c \<le> deletes n c"
  by (induction n arbitrary: c) (simp_all add: add_mono)

lemma delete_on_empty:
  "stack_contents st a = [] \<Longrightarrow> yielded st a = Continue Delete q \<Longrightarrow>
   stack_contents (fst (advance st a)) (snd (advance st a)) = []"
proof -
  assume e: "stack_contents st a = []" and y: "yielded st a = Continue Delete q"
  have "contents (after_decision st a) (stack a) = []"
    using e
    by (cases "decision st a")
       (auto simp add: after_decision_def stack_contents_def contents_def Stack_pop_def
          array_pop_def)
  with y show ?thesis
    by (simp add: stack_contents_def advance_store advance_fields Stack_action_def
        Stack_delete_def array_pop_def contents_def)
qed

lemma restricted_delete_delete_push: "restricted delete_delete_push"
  by (simp add: restricted_def delete_delete_push_def)

text \<open>
  Claim C8 (as amended). For a transition function whose continue actions only push,
  delete or ignore, and any input array (any array but the one the constructor has just
  made for the control stack, which no caller holds), the size of the control stack after
  \<open>n\<close> steps of a freshly constructed automaton is 1 plus the number of pushes applied
  minus the number of deletes applied to a non-empty stack; a delete applied to an empty
  stack leaves it empty and is not counted.
\<close>

theorem stack_size_counts_effective_deletes:
  assumes "restricted t"
    and "new_automaton st s0 z0 t = (st1, a1)"
    and "r \<noteq> fld st1 (stack a1)"
    and "setInput st1 a1 r = c"
  shows "int (length (stack_contents (fst (steps n c)) (snd (steps n c))))
           = 1 + int (pushes n c) - int (effective_deletes n c)
       \<and> effective_deletes n c \<le> deletes n c
       \<and> (stack_contents st' a' = [] \<and> yielded st' a' = Continue Delete q
            \<longrightarrow> stack_contents (fst (advance st' a')) (snd (advance st' a')) = [])"
proof -
  have st1: "st1 = fst (new_automaton st s0 z0 t)" and a1: "a1 = snd (new_automaton st s0 z0 t)"
    using assms(2) by simp_all
  have c: "c = setInput st1 a1 r" using assms(4) by simp
  have "transition (snd c) = t"
    by (simp add: c a1 setInput_fields new_automaton_fields)
  with assms(1) have res: "restricted (transition (snd c))" by simp
  have s: "stack a1 < obj_next st1"
    by (simp add: st1 a1 new_automaton_fields new_automaton_layout)
  have ap: "apart (fst c) (snd c)"
    using assms(3) s by (simp add: c apart_def setInput_fields setInput_layout)
  have "fld st1 (stack a1) < arr_next st1"
    by (simp add: st1 a1 new_automaton_fields new_automaton_layout)
  then have "stack_contents (fst c) (snd c) = stack_contents st1 a1"
    using s by (simp add: c stack_contents_def contents_def setInput_fields setInput_layout)
  also have "\<dots> = [z0]"
    by (simp add: st1 a1 new_automaton_contents)
  finally have z: "stack_contents (fst c) (snd c) = [z0]" .
  from steps_length [OF res ap, of n] z
  show ?thesis
    using effective_le_deletes [of n c] delete_on_empty [of st' a' q] by auto
qed

theorem stack_size_counts_effective_deletes_witness:
  "restricted delete_delete_push
   \<and> length (stack_contents
        (fst (steps (Suc (Suc (Suc (Suc 0)))) (fed 0 delete_delete_push [Val 1])))
        (snd (steps (Suc (Suc (Suc (Suc 0)))) (fed 0 delete_delete_push [Val 1])))) = 1
   \<and> pushes (Suc (Suc (Suc (Suc 0)))) (fed 0 delete_delete_push [Val 1]) = 1
   \<and> effective_deletes (Suc (Suc (Suc (Suc 0)))) (fed 0 delete_delete_push [Val 1]) = 1
   \<and> deletes (Suc (Suc (Suc (Suc 0)))) (fed 0 delete_delete_push [Val 1]) = 2"
proof -
  let ?n = "new_automaton (snd (array_new empty_store [Val 1])) 0 (Val 0) delete_delete_push"
  let ?c = "fed 0 delete_delete_push [Val 1]"
  let ?k = "Suc (Suc (Suc (Suc 0)))"
  have h1: "?n = (fst ?n, snd ?n)" by simp
  have h2: "0 \<noteq> fld (fst ?n) (stack (snd ?n))" by code_simp
  have h3: "setInput (fst ?n) (snd ?n) 0 = ?c" by (simp only: fed_setInput)
  have p: "pushes ?k ?c = 1" by code_simp
  have e: "effective_deletes ?k ?c = 1" by code_simp
  have d: "deletes ?k ?c = 2" by code_simp
  note k = stack_size_counts_effective_deletes
    [OF restricted_delete_delete_push h1 h2 h3, where n = ?k]
  from k [THEN conjunct1]
  have "length (stack_contents (fst (steps ?k ?c)) (snd (steps ?k ?c))) = 1"
    unfolding p e by simp
  with p e d restricted_delete_delete_push show ?thesis by blast
qed

text \<open>
  With every delete counted the formula fails: the automaton that deletes twice and then
  pushes has a stack of size 1 after three steps, where 1 + 1 - 2, bounded below by 0,
  is 0.
\<close>

theorem stack_size_formula_fails:
  "restricted delete_delete_push
     \<and> length (stack_contents (fst (steps (Suc (Suc (Suc 0))) (fed 0 delete_delete_push [])))
                               (snd (steps (Suc (Suc (Suc 0))) (fed 0 delete_delete_push [])))) = 1
     \<and> pushes (Suc (Suc (Suc 0))) (fed 0 delete_delete_push []) = 1
     \<and> deletes (Suc (Suc (Suc 0))) (fed 0 delete_delete_push []) = 2
     \<and> max 0 (1 + int (pushes (Suc (Suc (Suc 0))) (fed 0 delete_delete_push []))
                 - int (deletes (Suc (Suc (Suc 0))) (fed 0 delete_delete_push []))) = 0"
proof -
  have p: "pushes (Suc (Suc (Suc 0))) (fed 0 delete_delete_push []) = 1"
    by code_simp
  have d: "deletes (Suc (Suc (Suc 0))) (fed 0 delete_delete_push []) = 2"
    by code_simp
  have l: "length (stack_contents (fst (steps (Suc (Suc (Suc 0))) (fed 0 delete_delete_push [])))
                               (snd (steps (Suc (Suc (Suc 0))) (fed 0 delete_delete_push [])))) = 1"
    by code_simp
  show ?thesis
    unfolding p d l by (simp add: restricted_delete_delete_push)
qed

section \<open>Sharing and copies\<close>

lemma distinct_map_upd:
  "distinct (map f ss) \<Longrightarrow> \<forall>s\<in>set ss. f s \<noteq> v \<Longrightarrow> distinct (map (f(t := v)) ss)"
  by (auto simp add: distinct_map inj_on_def)

lemma separate_arr_update: "separate (st\<lparr>arr := h\<rparr>) ss = separate st ss"
  by (simp add: separate_def allocated_def list_all_iff)

lemma separate_other:
  "separate st ss \<Longrightarrow> t \<in> set ss \<Longrightarrow> x \<in> set ss \<Longrightarrow> x \<noteq> t \<Longrightarrow> fld st x \<noteq> fld st t"
  by (auto simp add: separate_def distinct_map inj_on_def)

lemma separate_allocated: "separate st ss \<Longrightarrow> x \<in> set ss \<Longrightarrow> allocated st x"
  by (simp add: separate_def list_all_iff)

lemma clear_separate:
  assumes "separate st ss" "t \<in> set ss"
  shows "separate (Stack_clear st t) ss"
proof -
  have a: "\<forall>s\<in>set ss. s < obj_next st \<and> fld st s < arr_next st"
    using assms(1) by (simp add: separate_def list_all_iff allocated_def)
  then have "\<forall>s\<in>set ss. fld st s \<noteq> arr_next st" by auto
  with assms(1) have "distinct (map ((fld st)(t := arr_next st)) ss)"
    by (simp add: separate_def distinct_map_upd)
  with a show ?thesis
    by (auto simp add: separate_def list_all_iff allocated_def Stack_clear_def array_new_def)
qed

lemma clear_contents:
  assumes "separate st ss" "t \<in> set ss" "x \<in> set ss" "x \<noteq> t"
  shows "contents (Stack_clear st t) x = contents st x"
proof -
  have "fld st x < arr_next st"
    using separate_allocated [OF assms(1,3)] by (simp add: allocated_def)
  with assms(4) show ?thesis
    by (simp add: contents_def Stack_clear_def array_new_def)
qed

lemma arr_update_contents:
  "fld st x \<noteq> r \<Longrightarrow> contents (st\<lparr>arr := (arr st)(r := v)\<rparr>) x = contents st x"
  by (simp add: contents_def)

lemma call_separate:
  assumes "separate st ss" "t \<in> set ss"
  shows "separate (call st (t, m)) ss"
proof (cases m)
  case (CallAction sa)
  then show ?thesis using assms
    by (cases sa)
       (simp_all add: clear_separate Stack_action_def Stack_delete_def Stack_push_def
          Stack_pop_def array_pop_def array_push_def separate_arr_update split_def)
qed (use assms in \<open>simp_all add: clear_separate Stack_delete_def Stack_push_def Stack_pop_def
       Stack_appendArray_def array_pop_def array_push_def separate_arr_update\<close>)

lemma call_contents:
  assumes "separate st ss" "t \<in> set ss" "x \<in> set ss" "x \<noteq> t"
  shows "contents (call st (t, m)) x = contents st x"
proof -
  note ne = separate_other [OF assms]
  show ?thesis
  proof (cases m)
    case (CallAction sa)
    then show ?thesis using assms ne
      by (cases sa)
         (simp_all add: clear_contents Stack_action_def Stack_delete_def Stack_push_def
            Stack_pop_def array_pop_def array_push_def arr_update_contents split_def)
  qed (use assms ne in \<open>simp_all add: clear_contents Stack_delete_def Stack_push_def
         Stack_pop_def Stack_appendArray_def array_pop_def array_push_def arr_update_contents\<close>)
qed

lemma calls_separate:
  "separate st ss \<Longrightarrow> x \<in> set ss \<Longrightarrow>
   list_all (\<lambda>c. fst c \<in> set ss \<and> fst c \<noteq> x) cs \<Longrightarrow>
   contents (calls st cs) x = contents st x"
proof (induction cs arbitrary: st)
  case Nil
  then show ?case by simp
next
  case (Cons c cs)
  obtain t m where c: "c = (t, m)" by (cases c)
  from Cons.prems c have t: "t \<in> set ss" "x \<noteq> t"
    and rest: "list_all (\<lambda>c. fst c \<in> set ss \<and> fst c \<noteq> x) cs"
    by auto
  have "contents (calls (call st (t, m)) cs) x = contents (call st (t, m)) x"
    using Cons.IH [OF call_separate [OF Cons.prems(1) t(1)] Cons.prems(2) rest] .
  also have "\<dots> = contents st x"
    using call_contents [OF Cons.prems(1) t(1) Cons.prems(2) t(2)] .
  finally show ?case by (simp add: c)
qed

lemma copy_separate:
  assumes "separate st ss" "this \<in> set ss"
  shows "separate (snd (Stack_copy st this)) (fst (Stack_copy st this) # ss)"
    and "contents (snd (Stack_copy st this)) (fst (Stack_copy st this)) = contents st this"
    and "\<forall>x\<in>set ss. contents (snd (Stack_copy st this)) x = contents st x"
    and "fst (Stack_copy st this) \<notin> set ss"
proof -
  have a: "\<forall>s\<in>set ss. s < obj_next st \<and> fld st s < arr_next st"
    using assms(1) by (simp add: separate_def list_all_iff allocated_def)
  have c: "fst (Stack_copy st this) = obj_next st"
    by (simp add: Stack_copy_def Stack_fromArray_def Stack_new_def array_new_def split_def)
  show "fst (Stack_copy st this) \<notin> set ss" using a c by auto
  show "contents (snd (Stack_copy st this)) (fst (Stack_copy st this)) = contents st this"
    by (simp add: Stack_copy_def Stack_fromArray_def Stack_new_def array_new_def split_def
        contents_def)
  show "\<forall>x\<in>set ss. contents (snd (Stack_copy st this)) x = contents st x"
    using a
    by (auto simp add: Stack_copy_def Stack_fromArray_def Stack_new_def array_new_def split_def
        contents_def)
  have m: "map (fld (snd (Stack_copy st this))) ss = map (fld st) ss"
    using a
    by (auto simp add: Stack_copy_def Stack_fromArray_def Stack_new_def array_new_def split_def)
  have f: "fld (snd (Stack_copy st this)) (obj_next st) = arr_next st"
    by (simp add: Stack_copy_def Stack_fromArray_def Stack_new_def array_new_def split_def)
  have n: "arr_next (snd (Stack_copy st this)) = Suc (Suc (arr_next st))"
    "obj_next (snd (Stack_copy st this)) = Suc (obj_next st)"
    by (simp_all add: Stack_copy_def Stack_fromArray_def Stack_new_def array_new_def split_def)
  have l: "list_all (allocated (snd (Stack_copy st this))) ss"
    using a
    by (auto simp add: list_all_iff allocated_def n Stack_copy_def Stack_fromArray_def
        Stack_new_def array_new_def split_def)
  have d: "distinct (map (fld (snd (Stack_copy st this))) ss)"
    unfolding m using assms(1) by (simp add: separate_def)
  have i: "arr_next st \<notin> set (map (fld (snd (Stack_copy st this))) ss)"
    unfolding m using a by auto
  from l d i f n show "separate (snd (Stack_copy st this)) (fst (Stack_copy st this) # ss)"
    by (simp add: separate_def c allocated_def)
qed

lemma copy_twice:
  assumes "allocated st s"
    and "Stack_copy st s = (c1, st1)"
    and "Stack_copy st1 s = (c2, st2)"
  shows "separate st2 [c2, c1, s]"
    and "contents st2 c1 = contents st s"
    and "contents st2 c2 = contents st s"
    and "contents st2 s = contents st s"
proof -
  have c1: "c1 = fst (Stack_copy st s)" and st1: "st1 = snd (Stack_copy st s)"
    using assms(2) by simp_all
  have c2: "c2 = fst (Stack_copy st1 s)" and st2: "st2 = snd (Stack_copy st1 s)"
    using assms(3) by simp_all
  have s0: "separate st [s]" using assms(1) by (simp add: separate_def)
  have s1: "separate st1 [c1, s]"
    unfolding c1 st1 using copy_separate(1) [OF s0, of s] by simp
  have k1: "contents st1 c1 = contents st s" "contents st1 s = contents st s"
    unfolding c1 st1 using copy_separate(2,3) [OF s0, of s] by simp_all
  show "separate st2 [c2, c1, s]"
    unfolding c2 st2 using copy_separate(1) [OF s1, of s] by simp
  have k2: "contents st2 c2 = contents st1 s" "contents st2 c1 = contents st1 c1"
    "contents st2 s = contents st1 s"
    unfolding c2 st2 using copy_separate(2,3) [OF s1, of s] by simp_all
  from k1 k2 show "contents st2 c1 = contents st s" "contents st2 c2 = contents st s"
    "contents st2 s = contents st s" by simp_all
qed

lemma array_mutate_contents:
  "contents (array_mutate st r f) s = (if fld st s = r then f (contents st s) else contents st s)"
  by (simp add: array_mutate_def contents_def)

text \<open>
  Claim C9. Two copies of the control stack taken in a row hold the symbols of the live
  stack, as does the live stack afterwards, and the three are different objects; whatever
  methods are then called, in any order, on two of them leave the contents of the third as
  they are. The same holds for two copies of the remaining input.
\<close>

theorem copies_equal_and_independent:
  assumes "allocated st (stack a)"
    and "allocated st (input a)"
    and "copyStack st a = (c1, st1)" and "copyStack st1 a = (c2, st2)"
    and "copyRemainingInput st a = (d1, v1)" and "copyRemainingInput v1 a = (d2, v2)"
    and "x \<in> set [c1, c2, stack a]"
    and "list_all (\<lambda>c. fst c \<in> set [c1, c2, stack a] \<and> fst c \<noteq> x) cs"
    and "y \<in> set [d1, d2, input a]"
    and "list_all (\<lambda>c. fst c \<in> set [d1, d2, input a] \<and> fst c \<noteq> y) ds"
  shows "contents st2 c1 = stack_contents st a
       \<and> contents st2 c2 = stack_contents st a
       \<and> stack_contents st2 a = stack_contents st a
       \<and> distinct [c1, c2, stack a]
       \<and> contents (calls st2 cs) x = contents st2 x
       \<and> contents v2 d1 = input_contents st a
       \<and> contents v2 d2 = input_contents st a
       \<and> input_contents v2 a = input_contents st a
       \<and> distinct [d1, d2, input a]
       \<and> contents (calls v2 ds) y = contents v2 y"
proof -
  have k1: "Stack_copy st (stack a) = (c1, st1)"
    using assms(3) by (simp add: copyStack_def)
  have k2: "Stack_copy st1 (stack a) = (c2, st2)"
    using assms(4) by (simp add: copyStack_def)
  note k = copy_twice [OF assms(1) k1 k2]
  have ks: "separate st2 [c1, c2, stack a]"
    using k(1) by (auto simp add: separate_def)
  have kd: "distinct [c1, c2, stack a]"
    using ks by (auto simp add: separate_def)
  have kc: "contents (calls st2 cs) x = contents st2 x"
    using calls_separate [OF ks assms(7,8)] .
  have i1: "Stack_copy st (input a) = (d1, v1)"
    using assms(5) by (simp add: copyRemainingInput_def)
  have i2: "Stack_copy v1 (input a) = (d2, v2)"
    using assms(6) by (simp add: copyRemainingInput_def)
  note i = copy_twice [OF assms(2) i1 i2]
  have isep: "separate v2 [d1, d2, input a]"
    using i(1) by (auto simp add: separate_def)
  have idist: "distinct [d1, d2, input a]"
    using isep by (auto simp add: separate_def)
  have ic: "contents (calls v2 ds) y = contents v2 y"
    using calls_separate [OF isep assms(9,10)] .
  from k(2-4) kd kc i(2-4) idist ic show ?thesis
    by (simp add: stack_contents_def input_contents_def)
qed

theorem copies_equal_and_independent_witness:
  "(let c = fed 0 picky [Val 1, Val 2];
        k1 = copyStack (fst c) (snd c);
        k2 = copyStack (snd k1) (snd c);
        i1 = copyRemainingInput (fst c) (snd c);
        i2 = copyRemainingInput (snd i1) (snd c);
        cs = [(fst k1, CallPush (Val 5)), (fst k2, CallClear), (fst k2, CallAppendArray 0)];
        ds = [(input (snd c), CallPop), (fst i2, CallAction (Push (Val 9)))]
    in stack (snd c) = 0 \<and> fst k1 = 3 \<and> fst k2 = 4
     \<and> contents (snd k2) (fst k1) = [Val 0]
     \<and> contents (snd k2) (fst k2) = [Val 0]
     \<and> contents (calls (snd k2) cs) (fst k1) = [Val 0, Val 5]
     \<and> contents (calls (snd k2) cs) (fst k2) = [Val 1, Val 2]
     \<and> contents (calls (snd k2) cs) (stack (snd c)) = [Val 0]
     \<and> input (snd c) = 2 \<and> fst i1 = 3 \<and> fst i2 = 4
     \<and> contents (snd i2) (fst i1) = [Val 1, Val 2]
     \<and> contents (snd i2) (fst i2) = [Val 1, Val 2]
     \<and> contents (calls (snd i2) ds) (input (snd c)) = [Val 1]
     \<and> contents (calls (snd i2) ds) (fst i2) = [Val 1, Val 2, Val 9]
     \<and> contents (calls (snd i2) ds) (fst i1) = [Val 1, Val 2])"
proof -
  let ?c = "fed 0 picky [Val 1, Val 2]"
  let ?k1 = "copyStack (fst ?c) (snd ?c)"
  let ?k2 = "copyStack (snd ?k1) (snd ?c)"
  let ?i1 = "copyRemainingInput (fst ?c) (snd ?c)"
  let ?i2 = "copyRemainingInput (snd ?i1) (snd ?c)"
  let ?cs = "[(fst ?k1, CallPush (Val 5)), (fst ?k2, CallClear), (fst ?k2, CallAppendArray 0)]"
  let ?ds = "[(input (snd ?c), CallPop), (fst ?i2, CallAction (Push (Val 9)))]"
  have a1: "allocated (fst ?c) (stack (snd ?c))" by code_simp
  have a2: "allocated (fst ?c) (input (snd ?c))" by code_simp
  have h3: "copyStack (fst ?c) (snd ?c) = (fst ?k1, snd ?k1)" by simp
  have h4: "copyStack (snd ?k1) (snd ?c) = (fst ?k2, snd ?k2)" by simp
  have h5: "copyRemainingInput (fst ?c) (snd ?c) = (fst ?i1, snd ?i1)" by simp
  have h6: "copyRemainingInput (snd ?i1) (snd ?c) = (fst ?i2, snd ?i2)" by simp
  have x: "stack (snd ?c) \<in> set [fst ?k1, fst ?k2, stack (snd ?c)]" by simp
  have y: "fst ?i1 \<in> set [fst ?i1, fst ?i2, input (snd ?c)]" by simp
  have cs: "list_all (\<lambda>c. fst c \<in> set [fst ?k1, fst ?k2, stack (snd ?c)]
              \<and> fst c \<noteq> stack (snd ?c)) ?cs" by code_simp
  have ds: "list_all (\<lambda>c. fst c \<in> set [fst ?i1, fst ?i2, input (snd ?c)]
              \<and> fst c \<noteq> fst ?i1) ?ds" by code_simp
  note k = copies_equal_and_independent [OF a1 a2 h3 h4 h5 h6 x cs y ds]
  have s: "stack_contents (fst ?c) (snd ?c) = [Val 0]" by code_simp
  have i: "input_contents (fst ?c) (snd ?c) = [Val 1, Val 2]" by code_simp
  have n: "stack (snd ?c) = 0" "fst ?k1 = 3" "fst ?k2 = 4" by code_simp+
  have ni: "input (snd ?c) = 2" "fst ?i1 = 3" "fst ?i2 = 4" by code_simp+
  have m1: "contents (calls (snd ?k2) ?cs) (fst ?k1) = [Val 0, Val 5]" by code_simp
  have m2: "contents (calls (snd ?k2) ?cs) (fst ?k2) = [Val 1, Val 2]" by code_simp
  have m3: "contents (calls (snd ?i2) ?ds) (input (snd ?c)) = [Val 1]" by code_simp
  have m4: "contents (calls (snd ?i2) ?ds) (fst ?i2) = [Val 1, Val 2, Val 9]" by code_simp
  have e3: "contents (snd ?k2) (fst ?k1) = [Val 0]"
    using k [THEN conjunct1] by (simp only: s)
  have e4: "contents (snd ?k2) (fst ?k2) = [Val 0]"
    using k [THEN conjunct2, THEN conjunct1] by (simp only: s)
  have "contents (calls (snd ?k2) ?cs) (stack (snd ?c)) = contents (snd ?k2) (stack (snd ?c))"
    by (rule k [THEN conjunct2, THEN conjunct2, THEN conjunct2, THEN conjunct2, THEN conjunct1])
  also have "\<dots> = stack_contents (fst ?c) (snd ?c)"
    using k [THEN conjunct2, THEN conjunct2, THEN conjunct1]
    by (simp only: stack_contents_def)
  also note s
  finally have e1: "contents (calls (snd ?k2) ?cs) (stack (snd ?c)) = [Val 0]" .
  note ki = k [THEN conjunct2, THEN conjunct2, THEN conjunct2, THEN conjunct2, THEN conjunct2]
  have e5: "contents (snd ?i2) (fst ?i1) = [Val 1, Val 2]"
    using ki [THEN conjunct1] by (simp only: i)
  have e6: "contents (snd ?i2) (fst ?i2) = [Val 1, Val 2]"
    using ki [THEN conjunct2, THEN conjunct1] by (simp only: i)
  have "contents (calls (snd ?i2) ?ds) (fst ?i1) = contents (snd ?i2) (fst ?i1)"
    by (rule ki [THEN conjunct2, THEN conjunct2, THEN conjunct2, THEN conjunct2])
  also note e5
  finally have e2: "contents (calls (snd ?i2) ?ds) (fst ?i1) = [Val 1, Val 2]" .
  show ?thesis
    unfolding Let_def
    by (intro conjI n ni m1 m2 m3 m4 e1 e2 e3 e4 e5 e6)
qed

section \<open>Ownership\<close>

text \<open>The layout of the store after each method: which object has which array.\<close>

lemma Stack_copy_layout:
  "fst (Stack_copy st s) = obj_next st"
  "fld (snd (Stack_copy st s)) = (fld st)(obj_next st := arr_next st)"
  "arr_next (snd (Stack_copy st s)) = Suc (Suc (arr_next st))"
  "obj_next (snd (Stack_copy st s)) = Suc (obj_next st)"
  by (simp_all add: Stack_copy_def Stack_fromArray_def Stack_new_def array_new_def split_def
      Let_def)

lemma advance_layout:
  "obj_next (fst (advance st a)) = obj_next st"
  "fld (fst (advance st a)) =
     (case yielded st a of
        Continue Clear q \<Rightarrow> (fld st)(stack a := arr_next st)
      | _ \<Rightarrow> fld st)"
  "arr_next (fst (advance st a)) =
     (case yielded st a of
        Continue Clear q \<Rightarrow> Suc (arr_next st)
      | _ \<Rightarrow> arr_next st)"
  by (simp_all add: advance_store Stack_action_frame after_decision_frame
      split: pda_action.splits stack_action.splits)

lemma call_layout:
  "obj_next (call st (s, m)) = obj_next st"
  "fld (call st (s, m)) =
     (if m = CallClear \<or> m = CallAction Clear then (fld st)(s := arr_next st) else fld st)"
  "arr_next (call st (s, m)) =
     (if m = CallClear \<or> m = CallAction Clear then Suc (arr_next st) else arr_next st)"
  by (cases m;
      simp add: Stack_action_frame Stack_push_def Stack_pop_def Stack_delete_def Stack_clear_def
        Stack_appendArray_def array_push_def array_pop_def array_new_def split_def;
      (cases "case m of CallAction sa \<Rightarrow> sa | _ \<Rightarrow> Ignore";
       simp add: Stack_action_frame))+

lemma call_other:
  assumes "fld st x \<noteq> fld st s" and "fld st x < arr_next st"
  shows "contents (call st (s, m)) x = contents st x"
proof (cases m)
  case (CallAction sa)
  then show ?thesis using assms by (simp add: Stack_action_other)
qed (use assms in \<open>auto simp add: Stack_push_def Stack_pop_def Stack_delete_def
       Stack_clear_def Stack_appendArray_def array_push_def array_pop_def array_new_def
       contents_def split_def\<close>)

lemma array_new_other:
  "fld st x < arr_next st \<Longrightarrow> contents (snd (array_new st xs)) x = contents st x"
  by (simp add: array_new_def contents_def)

lemma array_mutate_layout:
  "fld (array_mutate st r f) = fld st"
  "arr_next (array_mutate st r f) = arr_next st"
  "obj_next (array_mutate st r f) = obj_next st"
  by (simp_all add: array_mutate_def)

lemma exec_layout:
  "fld (fst (exec (Input r) (st, a))) = (fld st)(obj_next st := r)"
  "arr_next (fst (exec (Input r) (st, a))) = Suc (arr_next st)"
  "obj_next (fst (exec (Input r) (st, a))) = Suc (obj_next st)"
  "stack (snd (exec (Input r) (st, a))) = stack a"
  "input (snd (exec (Input r) (st, a))) = obj_next st"
  by (simp_all add: setInput_layout setInput_fields)

text \<open>A permitted operation leaves the automaton's stacks its own.\<close>

lemma owned_preserved:
  assumes o: "owned st a h" and p: "permitted h x"
  shows "owned (fst (exec x (st, a))) (snd (exec x (st, a))) (gains (st, a) x h)"
proof (cases x)
  case Advance
  show ?thesis using o
    unfolding Advance owned_def
    by (auto simp add: advance_layout advance_fields
        split: pda_action.splits stack_action.splits option.splits)
next
  case Reset
  show ?thesis using o
    unfolding Reset owned_def
    by (auto simp add: reset_layout reset_fields split: option.splits)
next
  case (Input r)
  show ?thesis using o p
    unfolding Input owned_def
    by (auto simp add: setInput_layout setInput_fields split: option.splits)
next
  case (OverrideState q)
  show ?thesis using o
    unfolding OverrideState owned_def
    by (auto simp add: overrideState_def split: option.splits)
next
  case (OverrideTransitionFunction t)
  show ?thesis using o
    unfolding OverrideTransitionFunction owned_def
    by (auto simp add: overrideTransitionFunction_def split: option.splits)
next
  case (ReplaceStack s)
  then show ?thesis using p by simp
next
  case (ReplaceInput s)
  then show ?thesis using p by simp
next
  case (RunStackAction sa)
  show ?thesis using o
    unfolding RunStackAction owned_def
    by (cases "sa = Clear")
       (auto simp add: runStackAction_def Stack_action_frame split: option.splits)
next
  case (RunInputAction sa)
  show ?thesis using o
    unfolding RunInputAction owned_def
    by (cases sa)
       (auto simp add: runInputAction_def Stack_action_frame split: option.splits)
next
  case (AppendInputArray r)
  show ?thesis using o
    unfolding AppendInputArray owned_def
    by (auto simp add: appendInputArray_def Stack_appendArray_def array_push_def
        split: option.splits)
next
  case CopyStack
  show ?thesis using o
    unfolding CopyStack owned_def
    by (auto simp add: copyStack_def Stack_copy_layout split: option.splits)
next
  case CopyRemainingInput
  show ?thesis using o
    unfolding CopyRemainingInput owned_def
    by (auto simp add: copyRemainingInput_def Stack_copy_layout split: option.splits)
next
  case (NewArray xs)
  show ?thesis using o
    unfolding NewArray owned_def
    by (auto simp add: array_new_def split: option.splits)
next
  case (MutateArray r f)
  show ?thesis using o
    unfolding MutateArray owned_def
    by (auto simp add: array_mutate_layout split: option.splits)
next
  case (Call s m)
  show ?thesis using o p
    unfolding Call owned_def
    by (auto simp add: call_layout simp del: call.simps split: option.splits)
next
  case (Caller f)
  then show ?thesis using p by simp
qed


lemma owned_new_automaton:
  assumes "\<forall>r\<in>A. r < arr_next st"
  shows "owned (fst (new_automaton st s0 z0 t)) (snd (new_automaton st s0 z0 t))
           \<lparr>held_arrays = A, held_stacks = {}, lent = None\<rparr>"
  using assms
  by (auto simp add: owned_def new_automaton_layout new_automaton_fields)

lemma owned_run:
  "allowed xs h c \<Longrightarrow> owned (fst c) (snd c) h \<Longrightarrow>
   owned (fst (run xs c)) (snd (run xs c)) (holding xs h c)"
proof (induction xs arbitrary: h c)
  case Nil
  then show ?case by simp
next
  case (Cons x xs)
  have "owned (fst (exec x c)) (snd (exec x c)) (gains c x h)"
    using owned_preserved [of "fst c" "snd c" h x] Cons.prems by simp
  with Cons.IH [of "gains c x h" "exec x c"] Cons.prems show ?case by simp
qed

text \<open>
  What the caller does to what it holds while the automaton's stacks are the automaton's
  own: nothing to the control stack, and to the input queue only what it does to the
  array it lent.
\<close>

lemma caller_frame:
  assumes o: "owned st a h" and p: "permitted h x" and c: "caller_op x"
  shows "snd (exec x (st, a)) = a"
    and "stack_contents (fst (exec x (st, a))) a = stack_contents st a"
    and "input_contents (fst (exec x (st, a))) a = follows h x (input_contents st a)"
proof -
  show "snd (exec x (st, a)) = a" using c by (cases x) simp_all
  have s: "fld st (stack a) < arr_next st" "fld st (stack a) \<notin> held_arrays h"
    and i: "fld st (input a) < arr_next st"
    and l: "case lent h of Some r \<Rightarrow> r \<in> held_arrays h \<and> fld st (input a) = r
                          | None \<Rightarrow> fld st (input a) \<notin> held_arrays h"
    and hs: "\<forall>s\<in>held_stacks h. fld st s \<noteq> fld st (stack a) \<and> fld st s \<noteq> fld st (input a)"
    using o by (simp_all add: owned_def)
  show "stack_contents (fst (exec x (st, a))) a = stack_contents st a"
  proof (cases x)
    case (NewArray xs)
    then show ?thesis using s by (simp add: stack_contents_def array_new_other)
  next
    case (MutateArray r f)
    then show ?thesis using s p by (auto simp add: stack_contents_def array_mutate_contents)
  next
    case (Call t m)
    then have "fld st (stack a) \<noteq> fld st t" using hs p by auto
    then show ?thesis using s Call by (simp add: stack_contents_def call_other del: call.simps)
  qed (use c in simp_all)
  show "input_contents (fst (exec x (st, a))) a = follows h x (input_contents st a)"
  proof (cases x)
    case (NewArray xs)
    then show ?thesis using i by (simp add: input_contents_def array_new_other)
  next
    case (MutateArray r f)
    then show ?thesis using l p
      by (auto simp add: input_contents_def array_mutate_contents split: option.splits)
  next
    case (Call t m)
    then have "fld st (input a) \<noteq> fld st t" using hs p by auto
    then show ?thesis using i Call by (simp add: input_contents_def call_other del: call.simps)
  qed (use c in simp_all)
qed

text \<open>
  Claim C5 (as amended). Take a caller who holds the arrays \<open>A\<close> when the automaton is
  constructed and who from then on uses the automaton's methods other than the raw
  accessors, \<^verbatim>\<open>replaceStack\<close> and \<^verbatim>\<open>replaceInput\<close>, passes to them only arrays it
  holds, and changes and calls only the arrays it made and the Stack copies it received.
  At every point of such a run, whatever the caller then does to an array it holds or to
  a copy it received leaves the automaton and the contents of the control stack as they
  are. The contents of the input queue are left as they are too, with one exception: the
  array passed to the latest \<^verbatim>\<open>input\<close> call, while no \<^verbatim>\<open>reset\<close> and no clear action
  on the input has come after that call, is the array of the input queue, and a change
  \<open>f\<close> of that array in place is the same change of the input queue.
\<close>

theorem caller_changes_only_lent_input:
  assumes "\<forall>r\<in>A. r < arr_next st0"
    and "allowed xs \<lparr>held_arrays = A, held_stacks = {}, lent = None\<rparr> (new_automaton st0 s0 z0 t)"
    and "holding xs \<lparr>held_arrays = A, held_stacks = {}, lent = None\<rparr> (new_automaton st0 s0 z0 t)
           = h"
    and "run xs (new_automaton st0 s0 z0 t) = (st, a)"
    and "permitted h x"
    and "caller_op x"
    and "exec x (st, a) = (st', a')"
  shows "a' = a
       \<and> stack_contents st' a = stack_contents st a
       \<and> input_contents st' a = follows h x (input_contents st a)"
proof -
  let ?c = "new_automaton st0 s0 z0 t"
  let ?h = "\<lparr>held_arrays = A, held_stacks = {}, lent = None\<rparr>"
  have "owned (fst ?c) (snd ?c) ?h" using assms(1) by (rule owned_new_automaton)
  from owned_run [OF assms(2) this] have o: "owned st a h" using assms(3,4) by simp
  have e: "st' = fst (exec x (st, a))" "a' = snd (exec x (st, a))" using assms(7) by simp_all
  show ?thesis unfolding e using caller_frame [OF o assms(5,6)] by simp
qed

theorem caller_changes_only_lent_input_witness:
  "(let st0 = snd (array_new empty_store [Val 1, Val 2, Val 3]);
        c0 = new_automaton st0 0 (Val 0) picky;
        h0 = \<lparr>held_arrays = {0}, held_stacks = {}, lent = None\<rparr>;
        c = run lending c0;
        h = holding lending h0 c0;
        c' = exec (MutateArray 0 tl) c
    in 0 < arr_next st0 \<and> allowed lending h0 c0 \<and> lent h = Some 0
     \<and> permitted h (MutateArray 0 tl :: (nat, nat) operation)
     \<and> snd c' = snd c
     \<and> stack_contents (fst c) (snd c) = [Val 0]
     \<and> stack_contents (fst c') (snd c) = [Val 0]
     \<and> input_contents (fst c) (snd c) = [Val 1, Val 2]
     \<and> input_contents (fst c') (snd c) = [Val 2])"
proof -
  let ?init = "snd (array_new (empty_store :: nat store) [Val 1, Val 2, Val 3])"
  let ?new = "new_automaton ?init (0::nat) (Val 0) picky"
  let ?none = "\<lparr>held_arrays = {0}, held_stacks = {}, lent = None\<rparr>"
  let ?c = "run lending ?new"
  let ?h = "holding lending ?none ?new"
  let ?x = "MutateArray 0 tl :: (nat, nat) operation"
  let ?c' = "exec ?x ?c"
  have h0: "0 < arr_next ?init" by code_simp
  then have h1: "\<forall>r\<in>{0}. r < arr_next ?init" by simp
  have h2: "allowed lending ?none ?new" by code_simp
  have h4: "?c = (fst ?c, snd ?c)" by simp
  have h5: "permitted ?h ?x" by code_simp
  have h6: "caller_op ?x" by simp
  have h7: "exec ?x (fst ?c, snd ?c) = (fst ?c', snd ?c')" by simp
  note k = caller_changes_only_lent_input [OF h1 h2 refl h4 h5 h6 h7]
  have l: "lent ?h = Some 0" by code_simp
  have s: "stack_contents (fst ?c) (snd ?c) = [Val 0]" by code_simp
  have i: "input_contents (fst ?c) (snd ?c) = [Val 1, Val 2]" by code_simp
  have e1: "snd ?c' = snd ?c" by (rule k [THEN conjunct1])
  have e2: "stack_contents (fst ?c') (snd ?c) = [Val 0]"
    using k [THEN conjunct2, THEN conjunct1] by (simp only: s)
  have "input_contents (fst ?c') (snd ?c) = follows ?h ?x (input_contents (fst ?c) (snd ?c))"
    by (rule k [THEN conjunct2, THEN conjunct2])
  also have "\<dots> = [Val 2]"
    unfolding i by (simp only: follows.simps l simp_thms if_True list.sel)
  finally have e3: "input_contents (fst ?c') (snd ?c) = [Val 2]" .
  show ?thesis
    unfolding Let_def by (intro conjI h0 h2 l h5 e1 s e2 i e3)
qed

text \<open>
  The array passed to the input-setting operation is not copied: after the operation with
  \<open>[1, 2]\<close>, a \<^verbatim>\<open>push(3)\<close> on that array by the caller makes the input queue
  \<open>[1, 2, 3]\<close>.
\<close>

theorem setInput_array_mutation_visible:
  "input_contents (fst (fed 0 picky [Val 1, Val 2])) (snd (fed 0 picky [Val 1, Val 2]))
     = [Val 1, Val 2]
   \<and> input_contents (array_push (fst (fed 0 picky [Val 1, Val 2])) 0 [Val 3])
       (snd (fed 0 picky [Val 1, Val 2]))
     = [Val 1, Val 2, Val 3]"
  by code_simp

end
